theory Spec2Isabelle
  imports Complex_Main
begin

section \<open>Shared conventions\<close>

text \<open>
  Python exceptions raised by the modelled code are values of \<open>error\<close>; a function
  that can raise returns \<open>error + 'a\<close> with \<open>Inl\<close> for the exception.
  Python's \<open>str\<close> is a sequence of Unicode code points, so a character is a \<open>nat\<close>
  (its \<open>ord\<close>) and a string is a list of them. Python's unbounded \<open>int\<close> is \<open>int\<close>.
\<close>

datatype error = ArithmeticError | IndexError | RuntimeError | TypeError | ValueError

type_synonym uchar = nat
type_synonym ustring = "uchar list"

definition ESC :: uchar where
  "ESC = 27"

section \<open>canvas.py: Rect\<close>

record Rect =
  x :: int
  y :: int
  w :: int
  h :: int

text \<open>
  \<open>Rect.from_ltrb\<close>: the guard is the exclusive-or of the two comparisons; on booleans
  \<open>^\<close> is \<open>\<noteq>\<close>.
\<close>

fun from_ltrb :: "int \<times> int \<Rightarrow> int \<times> int \<Rightarrow> error + Rect" where
  "from_ltrb (x0, y0) (xw, yh) =
     (if (x0 > xw) \<noteq> (y0 > yh) then Inl ArithmeticError
      else Inr \<lparr>x = min x0 xw, y = min y0 yh, w = \<bar>xw - x0\<bar>, h = \<bar>yh - y0\<bar>\<rparr>)"

section \<open>canvas.py: FontFamily\<close>

text \<open>
  A font handle is an opaque value of type \<open>'f\<close>; Python compares the handles with
  \<open>==\<close> in \<open>tuple.index\<close>. The optional variants are \<open>None\<close> when not configured.
\<close>

record 'f FontFamily =
  Regular :: 'f
  Thin :: "'f option"
  ExtraLight :: "'f option"
  Light :: "'f option"
  Medium :: "'f option"
  SemiBold :: "'f option"
  Bold :: "'f option"
  ExtraBold :: "'f option"
  Black :: "'f option"

definition tuple_of :: "'f FontFamily \<Rightarrow> 'f option list" where
  "tuple_of ff =
     [Thin ff, ExtraLight ff, Light ff, Some (Regular ff),
      Medium ff, SemiBold ff, Bold ff, ExtraBold ff, Black ff]"

text \<open>
  Python indexing of a sequence: a negative index counts from the end, an index out of
  range raises \<open>IndexError\<close>.
\<close>

definition py_index :: "'a list \<Rightarrow> int \<Rightarrow> error + 'a" where
  "py_index xs i =
     (if 0 \<le> i \<and> i < int (length xs) then Inr (xs ! nat i)
      else if i < 0 \<and> - int (length xs) \<le> i then Inr (xs ! nat (int (length xs) + i))
      else Inl IndexError)"

text \<open>\<open>FontFamily._select\<close>: \<open>((Regular,) + _tuple())[_i] or Regular\<close>.\<close>

definition select :: "'f FontFamily \<Rightarrow> int \<Rightarrow> error + 'f" where
  "select ff i =
     (case py_index (Some (Regular ff) # tuple_of ff) i of
        Inl e \<Rightarrow> Inl e
      | Inr None \<Rightarrow> Inr (Regular ff)
      | Inr (Some f) \<Rightarrow> Inr f)"

text \<open>
  \<open>round(_i / 100)\<close> on an integer \<open>_i\<close>: the quotient is a float and Python rounds a
  tie to the even neighbour. For an integer numerator the tie is exactly \<open>_i mod 100 = 50\<close>.
\<close>

definition round_div100 :: "int \<Rightarrow> int" where
  "round_div100 i =
     (let q = i div 100; r = i mod 100
      in if r < 50 then q else if r > 50 then q + 1
         else if even q then q else q + 1)"

text \<open>\<open>FontFamily.__getitem__\<close>.\<close>

definition getitem :: "'f FontFamily \<Rightarrow> int \<Rightarrow> error + 'f" where
  "getitem ff i =
     (if 0 \<le> i \<and> i < 10 then select ff i
      else if 100 \<le> i \<and> i \<le> 900 then select ff (round_div100 i)
      else Inl IndexError)"

text \<open>\<open>tuple.index\<close>: position of the first equal element, \<open>ValueError\<close> when absent.\<close>

fun index_of :: "'a list \<Rightarrow> 'a \<Rightarrow> error + nat" where
  "index_of [] v = Inl ValueError"
| "index_of (a # as) v =
     (if a = v then Inr 0
      else case index_of as v of Inl e \<Rightarrow> Inl e | Inr k \<Rightarrow> Inr (Suc k))"

text \<open>
  \<open>FontFamily.find_relative_font\<close>: \<open>ext\<close> keeps the configured variants in the order
  of \<open>_tuple()\<close>; the result is \<open>ext[max(0, min(len(ext), found))]\<close>.
\<close>

definition ext_of :: "'f FontFamily \<Rightarrow> 'f list" where
  "ext_of ff = List.map_filter id (tuple_of ff)"

definition find_relative_font :: "'f FontFamily \<Rightarrow> int \<Rightarrow> 'f option \<Rightarrow> error + 'f" where
  "find_relative_font ff delta fnt =
     (let ext = ext_of ff;
          f0 = (case fnt of None \<Rightarrow> Regular ff | Some f \<Rightarrow> f)
      in case index_of ext f0 of
           Inl e \<Rightarrow> Inl e
         | Inr k \<Rightarrow>
             let found = int k + delta
             in py_index ext (max 0 (min (int (length ext)) found)))"

text \<open>\<open>FontFamily.__add__\<close>.\<close>

definition ff_add :: "'f FontFamily \<Rightarrow> int \<Rightarrow> error + 'f" where
  "ff_add ff other = find_relative_font ff other None"

section \<open>ansitool.py: SGRState\<close>

record SGRState =
  power :: int
  italic :: bool
  uline :: int
  hline :: int
  strike :: bool
  font :: int
  fg_default :: int
  fg :: int
  fg_rgb :: "int list option"
  dot :: bool

text \<open>The dataclass defaults.\<close>

definition SGRState0 :: SGRState where
  "SGRState0 =
     \<lparr>power = 0, italic = False, uline = 0, hline = 0, strike = False, font = 0,
      fg_default = 0, fg = 0, fg_rgb = None, dot = False\<rparr>"

text \<open>
  The local variables of one call of \<open>set_state\<close>. They are created at every call and
  dropped when it returns. \<open>op38_24_tmp\<close> is appended to and never emptied inside a call.
\<close>

record op_locals =
  op38 :: bool
  op38_256 :: bool
  op38_24 :: int
  op38_24_tmp :: "int list"

definition locals0 :: op_locals where
  "locals0 = \<lparr>op38 = False, op38_256 = False, op38_24 = 0, op38_24_tmp = []\<rparr>"

text \<open>
  The branch chain on the opcode once it is not consumed as an argument. The final
  \<open>else\<close> emits a warning and changes nothing.
\<close>

definition apply_opcode :: "SGRState \<Rightarrow> int \<Rightarrow> SGRState" where
  "apply_opcode s opc =
     (if opc = 0 then
        s\<lparr>power := 0, uline := 0, hline := 0, font := 0,
          italic := False, strike := False, dot := False,
          fg := fg_default s, fg_rgb := None\<rparr>
      else if opc = 1 then s\<lparr>power := power s + 1\<rparr>
      else if opc = 2 then s\<lparr>power := power s - 1\<rparr>
      else if opc = 3 then s\<lparr>italic := True\<rparr>
      else if opc = 4 then s\<lparr>uline := uline s + 1\<rparr>
      else if opc = 9 then s\<lparr>strike := True\<rparr>
      else if 10 \<le> opc \<and> opc \<le> 19 then s\<lparr>font := opc - 10\<rparr>
      else if opc = 23 then s\<lparr>italic := False\<rparr>
      else if opc = 24 then s\<lparr>uline := uline s - 1\<rparr>
      else if opc = 29 then s\<lparr>strike := False\<rparr>
      else if 30 \<le> opc \<and> opc \<le> 37 then s\<lparr>fg := opc - 30, fg_rgb := None\<rparr>
      else if opc = 38 then s
      else if opc = 39 then s\<lparr>fg := fg_default s\<rparr>
      else if opc = 53 then s\<lparr>hline := hline s + 1\<rparr>
      else if opc = 55 then s\<lparr>hline := hline s - 1\<rparr>
      else if opc = 64 then s\<lparr>dot := True\<rparr>
      else if opc = 65 then s\<lparr>dot := False\<rparr>
      else if 90 \<le> opc \<and> opc \<le> 97 then s\<lparr>fg := opc - 82, fg_rgb := None\<rparr>
      else s)"

text \<open>One iteration of the \<open>for op in opcodes\<close> loop.\<close>

definition set_state_step :: "op_locals \<times> SGRState \<Rightarrow> int \<Rightarrow> op_locals \<times> SGRState" where
  "set_state_step ls opc =
     (let l = fst ls; s = snd ls in
      if op38_256 l then
        (l\<lparr>op38 := False, op38_256 := False\<rparr>, s\<lparr>fg := opc, fg_rgb := None\<rparr>)
      else if op38_24 l \<noteq> 0 then
        (let tmp = op38_24_tmp l @ [opc]; k = op38_24 l - 1 in
         if k = 0
         then (l\<lparr>op38 := False, op38_256 := False, op38_24 := k, op38_24_tmp := tmp\<rparr>,
               s\<lparr>fg_rgb := Some tmp\<rparr>)
         else (l\<lparr>op38_24 := k, op38_24_tmp := tmp\<rparr>, s))
      else if op38 l \<and> opc = 5 then (l\<lparr>op38_256 := True\<rparr>, s)
      else if op38 l \<and> opc = 2 then (l\<lparr>op38_24 := 3\<rparr>, s)
      else
        (let l1 = (if op38 l then l\<lparr>op38 := False, op38_256 := False\<rparr> else l);
             s1 = (if op38 l then s\<lparr>fg_rgb := None\<rparr> else s)
         in (if opc = 38 then l1\<lparr>op38 := True\<rparr> else l1, apply_opcode s1 opc)))"

fun set_state_loop :: "op_locals \<times> SGRState \<Rightarrow> int list \<Rightarrow> op_locals \<times> SGRState" where
  "set_state_loop ls [] = ls"
| "set_state_loop ls (opc # opcodes) = set_state_loop (set_state_step ls opc) opcodes"

text \<open>\<open>SGRState.set_state\<close> on the given opcodes: the state after the call.\<close>

definition set_state :: "SGRState \<Rightarrow> int list \<Rightarrow> SGRState" where
  "set_state s opcodes = snd (set_state_loop (locals0, s) opcodes)"

section \<open>ansitool.py: findcsiend\<close>

text \<open>
  \<open>next((... for i, c in enumerate(s) if P c), default)\<close> takes the first index whose
  character satisfies \<open>P\<close>.
\<close>

fun first_index :: "('a \<Rightarrow> bool) \<Rightarrow> 'a list \<Rightarrow> nat option" where
  "first_index P [] = None"
| "first_index P (a # as) =
     (if P a then Some 0 else map_option Suc (first_index P as))"

definition findcsiend :: "ustring \<Rightarrow> nat" where
  "findcsiend text =
     (case first_index (\<lambda>c. 0x40 \<le> c \<and> c < 0x7f) (drop 2 text) of
        Some i \<Rightarrow> i + 3
      | None \<Rightarrow> length text)"

section \<open>textwork.py\<close>

text \<open>
  The Unicode tables behind \<open>unicodedata.east_asian_width\<close> and \<open>str.isspace\<close> are
  not part of the repository; they are parameters of the model.
\<close>

datatype eaw_class = EAW_F | EAW_W | EAW_A | EAW_Na | EAW_H | EAW_N

record unicode_db =
  east_asian_width :: "uchar \<Rightarrow> eaw_class"
  isspace :: "uchar \<Rightarrow> bool"

definition iseaw :: "unicode_db \<Rightarrow> uchar \<Rightarrow> bool" where
  "iseaw db c = (east_asian_width db c \<in> {EAW_F, EAW_W, EAW_A})"

definition findword :: "unicode_db \<Rightarrow> ustring \<Rightarrow> nat" where
  "findword db s =
     (case first_index (\<lambda>c. iseaw db c \<or> isspace db c \<or> c = ESC) s of
        Some i \<Rightarrow> i
      | None \<Rightarrow> length s)"

text \<open>Python's \<open>a in b\<close> on two strings: \<open>a\<close> occurs in \<open>b\<close> as a substring.\<close>

fun py_in :: "'a list \<Rightarrow> 'a list \<Rightarrow> bool" where
  "py_in c [] = (c = [])"
| "py_in c (a # as) = (take (length c) (a # as) = c \<or> py_in c as)"

record PunctuationRule =
  left_bind :: ustring
  right_bind :: ustring
  both_bind :: ustring

definition islb :: "PunctuationRule \<Rightarrow> ustring \<Rightarrow> bool" where
  "islb r c = (py_in c (left_bind r) \<or> py_in c (both_bind r))"

definition isrb :: "PunctuationRule \<Rightarrow> ustring \<Rightarrow> bool" where
  "isrb r c = (py_in c (right_bind r) \<or> py_in c (both_bind r))"

text \<open>The two rule tables, as the code points of the characters of the literals.\<close>

definition WesternPuncRule :: PunctuationRule where
  "WesternPuncRule =
     \<lparr>left_bind = [44, 46, 58, 59, 63, 33, 62, 41, 93, 125, 126, 37],
      right_bind = [60, 40, 91, 123, 36, 35, 64],
      both_bind = [45, 95, 43, 61, 38, 94, 42, 47, 124, 92]\<rparr>"

definition CJKPuncRule :: PunctuationRule where
  "CJKPuncRule =
     \<lparr>left_bind = [12290, 65292, 12289, 65307, 65306, 65311, 65281, 8221, 65289, 65376,
                   12299, 12301, 12303, 12305, 12309, 12311, 12313, 12315, 12318, 183,
                   45, 65293, 65374],
      right_bind = [8220, 65288, 65375, 12298, 12300, 12302, 12304, 12308, 12310, 12312,
                    12314, 12317],
      both_bind = [8212, 8230, 65295, 65372]\<rparr>"

definition P_RULES :: "PunctuationRule list" where
  "P_RULES = [WesternPuncRule, CJKPuncRule]"

text \<open>The module functions \<open>_islb\<close>, \<open>_isrb\<close> and \<open>_ispunc\<close>.\<close>

definition any_islb :: "ustring \<Rightarrow> bool" where
  "any_islb c = list_ex (\<lambda>r. islb r c) P_RULES"

definition any_isrb :: "ustring \<Rightarrow> bool" where
  "any_isrb c = list_ex (\<lambda>r. isrb r c) P_RULES"

definition any_ispunc :: "ustring \<Rightarrow> bool" where
  "any_ispunc c = list_ex (\<lambda>r. py_in c (left_bind r @ right_bind r @ both_bind r)) P_RULES"

text \<open>
  \<open>split\<close>: the \<open>while base != length\<close> loop. \<open>t[base]\<close> raises \<open>IndexError\<close> once
  \<open>base\<close> is past the end; \<open>t[base:base + w]\<close> is a slice and never raises.
\<close>

function split_loop :: "unicode_db \<Rightarrow> ustring \<Rightarrow> nat \<Rightarrow> ustring list \<Rightarrow> error + ustring list" where
  "split_loop db t base res =
     (if base = length t then Inr res
      else if length t < base then Inl IndexError
      else
        let w = (if t ! base = ESC then findcsiend (drop base t)
                 else findword db (drop base t))
        in if w = 0 then split_loop db t (base + 1) (res @ [[t ! base]])
           else split_loop db t (base + w) (res @ [take w (drop base t)]))"
  by pat_completeness auto
termination
  by (relation "measure (\<lambda>(db, t, base, res). length t - base)") auto

declare split_loop.simps [simp del]

definition split :: "unicode_db \<Rightarrow> ustring \<Rightarrow> error + ustring list" where
  "split db t = split_loop db t 0 []"

text \<open>
  \<open>combine\<close>: the loop variables. \<open>res[-1] += wd\<close> extends the last entry; \<open>res\<close>
  starts with one entry and only grows, so the last entry always exists.
\<close>

record combine_state =
  res :: "ustring list"
  prb :: bool
  rb :: bool
  psgr :: bool

definition append_last :: "ustring list \<Rightarrow> ustring \<Rightarrow> ustring list" where
  "append_last r wd = butlast r @ [last r @ wd]"

text \<open>One iteration of \<open>for wd in t[1:]\<close>; \<open>wd[0]\<close> raises on an empty token.\<close>

definition combine_step :: "combine_state \<Rightarrow> ustring \<Rightarrow> error + combine_state" where
  "combine_step st wd =
     (if wd = [] then Inl IndexError
      else if hd wd = ESC then
        Inr \<lparr>res = res st @ [wd], prb = False, rb = False, psgr = True\<rparr>
      else
        let st1 = (if rb st \<and> \<not> psgr st
                   then st\<lparr>res := append_last (res st) wd, prb := True, rb := False\<rparr>
                   else st);
            st2 = (if length wd = 1 \<and> any_ispunc wd then
                     (let st' = st1\<lparr>rb := any_isrb wd\<rparr>
                      in if any_islb wd \<and> \<not> psgr st'
                         then st'\<lparr>res := append_last (res st') wd, prb := True\<rparr>
                         else st')
                   else st1);
            st3 = (if \<not> prb st2 then st2\<lparr>res := res st2 @ [wd]\<rparr> else st2)
        in Inr (st3\<lparr>prb := False, psgr := False\<rparr>))"

fun combine_loop :: "combine_state \<Rightarrow> ustring list \<Rightarrow> error + combine_state" where
  "combine_loop st [] = Inr st"
| "combine_loop st (wd # ts) =
     (case combine_step st wd of Inl e \<Rightarrow> Inl e | Inr st' \<Rightarrow> combine_loop st' ts)"

definition combine :: "ustring list \<Rightarrow> error + ustring list" where
  "combine t =
     (case t of
        [] \<Rightarrow> Inr []
      | t0 # ts \<Rightarrow>
          if t0 = [] then Inl IndexError
          else case combine_loop
                      \<lparr>res = [t0], prb = False, rb = (length t0 = 1 \<and> any_isrb t0),
                       psgr = (hd t0 = ESC)\<rparr> ts of
                 Inl e \<Rightarrow> Inl e
               | Inr st \<Rightarrow> Inr (res st))"

section \<open>colordef.py: RGBA\<close>

text \<open>The named tuple \<open>RGBA(r, g, b, a)\<close> with defaults \<open>0, 0, 0, 255\<close>.\<close>

datatype RGBA = RGBA int int int int

text \<open>The constructor \<open>RGBA\<close> on an unpacked sequence: more than four arguments raise \<open>TypeError\<close>.\<close>

fun rgba_of_args :: "int list \<Rightarrow> error + RGBA" where
  "rgba_of_args [] = Inr (RGBA 0 0 0 255)"
| "rgba_of_args [cr] = Inr (RGBA cr 0 0 255)"
| "rgba_of_args [cr, cg] = Inr (RGBA cr cg 0 255)"
| "rgba_of_args [cr, cg, cb] = Inr (RGBA cr cg cb 255)"
| "rgba_of_args [cr, cg, cb, ca] = Inr (RGBA cr cg cb ca)"
| "rgba_of_args _ = Inl TypeError"

section \<open>canvas.py: TextDrawState\<close>

text \<open>
  \<open>palette\<close> is the colour table of the palette class (\<open>ColorTable._default\<close> unless
  the caller passes a subclass); \<open>palette(fg).rgba\<close> indexes it. \<open>curpos\<close> holds floats;
  they are modelled by exact rationals.
\<close>

record 'f TextDrawState =
  land :: Rect
  avoid :: "Rect list"
  fonts :: "('f FontFamily \<times> 'f FontFamily option) list"
  lineheight :: int
  curpos :: "rat \<times> rat"
  spacing :: int
  sgr :: SGRState
  palette :: "RGBA list"

text \<open>
  \<open>current_font\<close>: \<open>(fonts[font][italic] or fonts[font][0]) + power\<close>. A \<open>FontFamily\<close>
  object is always true, so only a missing italic family falls back.
\<close>

definition current_font :: "'f TextDrawState \<Rightarrow> error + 'f" where
  "current_font st =
     (case py_index (fonts st) (font (sgr st)) of
        Inl e \<Rightarrow> Inl e
      | Inr pair \<Rightarrow>
          let fam = (if italic (sgr st)
                     then (case snd pair of None \<Rightarrow> fst pair | Some it \<Rightarrow> it)
                     else fst pair)
          in ff_add fam (power (sgr st)))"

definition current_color :: "'f TextDrawState \<Rightarrow> error + RGBA" where
  "current_color st =
     (case fg_rgb (sgr st) of
        Some rgb \<Rightarrow> rgba_of_args rgb
      | None \<Rightarrow> py_index (palette st) (fg (sgr st)))"

section \<open>canvas.py: RichCanvas\<close>

text \<open>
  The drawing surface is external. \<open>textbbox\<close> is the metrics provider: the last two
  components of \<open>draw.textbbox((0, 0), wd, font, "la")\<close>. \<open>py_int\<close> is Python's
  \<open>int\<close> on a string (\<open>None\<close> for \<open>ValueError\<close>), which reads Unicode digit tables.
  A call of \<open>draw.text\<close> is recorded as a \<open>Paint\<close> entry: position, text, fill, font.
\<close>

record 'f runtime =
  db :: unicode_db
  textbbox :: "ustring \<Rightarrow> 'f \<Rightarrow> int \<times> int"
  py_int :: "ustring \<Rightarrow> int option"

datatype 'f paint = Paint "rat \<times> rat" ustring RGBA 'f

text \<open>\<open>s.split(sep)\<close> for a one-character separator.\<close>

fun py_split :: "'a \<Rightarrow> 'a list \<Rightarrow> 'a list list" where
  "py_split sep [] = [[]]"
| "py_split sep (c # cs) =
     (if c = sep then [] # py_split sep cs
      else case py_split sep cs of
             [] \<Rightarrow> [[c]]
           | p # ps \<Rightarrow> (c # p) # ps)"

fun map_int :: "(ustring \<Rightarrow> int option) \<Rightarrow> ustring list \<Rightarrow> error + int list" where
  "map_int f [] = Inr []"
| "map_int f (p # ps) =
     (case f p of
        None \<Rightarrow> Inl ValueError
      | Some v \<Rightarrow> (case map_int f ps of Inl e \<Rightarrow> Inl e | Inr vs \<Rightarrow> Inr (v # vs)))"

text \<open>\<open>[int(opc) for opc in wd[2:-1].split(";")]\<close>; 59 is the semicolon.\<close>

definition parse_params :: "'f runtime \<Rightarrow> ustring \<Rightarrow> error + int list" where
  "parse_params rt wd = map_int (py_int rt) (py_split 59 (drop 2 (butlast wd)))"

text \<open>
  One iteration of the loop of \<open>_draw_text\<close> over the queue, on the pair of the draw
  state and the paint commands issued so far.
\<close>

definition draw_text_item ::
  "'f runtime \<Rightarrow> int \<Rightarrow> int \<Rightarrow> 'f TextDrawState \<times> 'f paint list \<Rightarrow> ustring \<times> int
     \<Rightarrow> error + 'f TextDrawState \<times> 'f paint list" where
  "draw_text_item rt breadcrumb n sc item =
     (let st = fst sc; cv = snd sc; wd = fst item; wi = snd item in
      if wd = [] then Inl IndexError
      else if hd wd = ESC then
        (case parse_params rt wd of
           Inl e \<Rightarrow> Inl e
         | Inr params \<Rightarrow> Inr (st\<lparr>sgr := set_state (sgr st) params\<rparr>, cv))
      else if wi = 0 then Inl RuntimeError
      else
        (case current_color st of
           Inl e \<Rightarrow> Inl e
         | Inr col \<Rightarrow>
             (case current_font st of
                Inl e \<Rightarrow> Inl e
              | Inr fnt \<Rightarrow>
                  let cx = fst (curpos st); cy = snd (curpos st) in
                  Inr (st\<lparr>curpos := (cx + of_int wi + of_int breadcrumb / of_int n, cy)\<rparr>,
                       cv @ [Paint (cx + of_int (x (land st)), cy + of_int (y (land st)))
                                   wd col fnt]))))"

fun draw_text_loop ::
  "'f runtime \<Rightarrow> int \<Rightarrow> int \<Rightarrow> 'f TextDrawState \<times> 'f paint list \<Rightarrow> (ustring \<times> int) list
     \<Rightarrow> error + 'f TextDrawState \<times> 'f paint list" where
  "draw_text_loop rt breadcrumb n sc [] = Inr sc"
| "draw_text_loop rt breadcrumb n sc (item # textq) =
     (case draw_text_item rt breadcrumb n sc item of
        Inl e \<Rightarrow> Inl e
      | Inr sc' \<Rightarrow> draw_text_loop rt breadcrumb n sc' textq)"

text \<open>\<open>RichCanvas._draw_text\<close>; the caller's queue is empty afterwards (\<open>textq.clear()\<close>).\<close>

definition draw_text ::
  "'f runtime \<Rightarrow> 'f TextDrawState \<times> 'f paint list \<Rightarrow> (ustring \<times> int) list \<Rightarrow> int \<Rightarrow> int
     \<Rightarrow> error + 'f TextDrawState \<times> 'f paint list" where
  "draw_text rt sc textq breadcrumb nstyle =
     draw_text_loop rt breadcrumb (max 1 (int (length textq) - 1 - nstyle)) sc textq"

text \<open>The local variables of \<open>_text\<close>.\<close>

record text_locals =
  rq :: "(ustring \<times> int) list"
  rw :: int
  rh :: int
  ws :: int
  wsw :: int
  lwr :: bool
  sty :: int

definition text_locals0 :: text_locals where
  "text_locals0 = \<lparr>rq = [], rw = 0, rh = 0, ws = 0, wsw = 0, lwr = True, sty = 0\<rparr>"

text \<open>\<open>for _ in range(ws): rq.pop()\<close>; popping an empty deque raises \<open>IndexError\<close>.\<close>

definition pop_n :: "'a list \<Rightarrow> int \<Rightarrow> error + 'a list" where
  "pop_n q k = (if int (length q) < k then Inl IndexError
                else Inr (take (length q - nat k) q))"

text \<open>\<open>not wd.strip()\<close>: every character of \<open>wd\<close> is whitespace.\<close>

definition is_blank :: "unicode_db \<Rightarrow> ustring \<Rightarrow> bool" where
  "is_blank d wd = list_all (isspace d) wd"

text \<open>The body of \<open>if rw + w > st.land.w\<close>: strip, flush, enter a new line.\<close>

definition line_break ::
  "'f runtime \<Rightarrow> bool \<Rightarrow> 'f TextDrawState \<times> 'f paint list \<Rightarrow> text_locals
     \<Rightarrow> error + ('f TextDrawState \<times> 'f paint list) \<times> text_locals" where
  "line_break rt justify sc L =
     (let crb = (if justify then w (land (fst sc)) - rw L + wsw L else 0) in
      case pop_n (rq L) (ws L) of
        Inl e \<Rightarrow> Inl e
      | Inr q \<Rightarrow>
          (case draw_text rt sc q crb (sty L) of
             Inl e \<Rightarrow> Inl e
           | Inr sc' \<Rightarrow>
               let st' = fst sc'; cy = snd (curpos st') in
               Inr ((st'\<lparr>curpos := (0, cy + of_int (rh L) + of_int (spacing st'))\<rparr>, snd sc'),
                    L\<lparr>rq := [], sty := 0, rw := 0, rh := 0\<rparr>)))"

text \<open>One iteration of \<open>for wd in sp\<close> in \<open>_text\<close>.\<close>

definition text_step ::
  "'f runtime \<Rightarrow> bool \<Rightarrow> ('f TextDrawState \<times> 'f paint list) \<times> text_locals \<Rightarrow> ustring
     \<Rightarrow> error + ('f TextDrawState \<times> 'f paint list) \<times> text_locals" where
  "text_step rt justify scl wd =
     (let sc = fst scl; L = snd scl in
      if wd = [] then Inl IndexError
      else if hd wd = ESC then Inr (sc, L\<lparr>sty := sty L + 1, rq := rq L @ [(wd, 0)]\<rparr>)
      else
        (case current_font (fst sc) of
           Inl e \<Rightarrow> Inl e
         | Inr fnt \<Rightarrow>
             let wid = fst (textbbox rt wd fnt); hgt = snd (textbbox rt wd fnt);
                 L1 = L\<lparr>rh := max hgt (max (rh L) (lineheight (fst sc)))\<rparr>
             in case (if rw L1 + wid > w (land (fst sc))
                      then line_break rt justify sc L1 else Inr (sc, L1)) of
                  Inl e \<Rightarrow> Inl e
                | Inr (sc2, L2) \<Rightarrow>
                    if rq L2 = [] \<and> is_blank (db rt) wd \<and> \<not> lwr L2 then Inr (sc2, L2)
                    else
                      let L3 = L2\<lparr>rw := rw L2 + wid, rq := rq L2 @ [(wd, wid)]\<rparr>
                      in Inr (sc2,
                              if \<not> is_blank (db rt) wd
                              then L3\<lparr>lwr := False, ws := 0, wsw := 0\<rparr>
                              else L3\<lparr>ws := ws L3 + 1, wsw := wsw L3 + wid\<rparr>)))"

fun text_loop ::
  "'f runtime \<Rightarrow> bool \<Rightarrow> ('f TextDrawState \<times> 'f paint list) \<times> text_locals \<Rightarrow> ustring list
     \<Rightarrow> error + ('f TextDrawState \<times> 'f paint list) \<times> text_locals" where
  "text_loop rt justify scl [] = Inr scl"
| "text_loop rt justify scl (wd # sp) =
     (case text_step rt justify scl wd of
        Inl e \<Rightarrow> Inl e
      | Inr scl' \<Rightarrow> text_loop rt justify scl' sp)"

text \<open>
  \<open>RichCanvas._text\<close> on one hard line: the draw state and the paint commands after
  the call.
\<close>

definition rc_text ::
  "'f runtime \<Rightarrow> 'f TextDrawState \<times> 'f paint list \<Rightarrow> ustring \<Rightarrow> bool
     \<Rightarrow> error + 'f TextDrawState \<times> 'f paint list" where
  "rc_text rt sc txt justify =
     (case split (db rt) txt of
        Inl e \<Rightarrow> Inl e
      | Inr toks \<Rightarrow>
          (case combine toks of
             Inl e \<Rightarrow> Inl e
           | Inr sp \<Rightarrow>
               (case text_loop rt justify (sc, text_locals0) sp of
                  Inl e \<Rightarrow> Inl e
                | Inr (sc1, L) \<Rightarrow>
                    (case draw_text rt sc1 (rq L) 0 0 of
                       Inl e \<Rightarrow> Inl e
                     | Inr sc2 \<Rightarrow>
                         let st2 = fst sc2; cy = snd (curpos st2) in
                         Inr (st2\<lparr>curpos :=
                                    (0, cy + of_int (max (rh L) (lineheight st2))
                                          + of_int (spacing st2))\<rparr>,
                              snd sc2)))))"

section \<open>Auxiliary definitions for the statements\<close>

text \<open>ASCII literals as code-point strings.\<close>

definition ustr :: "string \<Rightarrow> ustring" where
  "ustr s = map of_char s"

text \<open>Font families with only some variants configured.\<close>

definition regular_only_family :: "'f \<Rightarrow> 'f FontFamily" where
  "regular_only_family f0 =
     \<lparr>Regular = f0, Thin = None, ExtraLight = None, Light = None, Medium = None,
      SemiBold = None, Bold = None, ExtraBold = None, Black = None\<rparr>"

definition regular_bold_family :: "'f \<Rightarrow> 'f \<Rightarrow> 'f FontFamily" where
  "regular_bold_family f0 f1 =
     \<lparr>Regular = f0, Thin = None, ExtraLight = None, Light = None, Medium = None,
      SemiBold = None, Bold = Some f1, ExtraBold = None, Black = None\<rparr>"

text \<open>
  The loop of \<open>set_state\<close> is waiting for a palette index or an RGB component: the next
  integer is consumed as an argument whatever its value.
\<close>

definition awaiting_argument :: "op_locals \<Rightarrow> bool" where
  "awaiting_argument l = (op38_256 l \<or> op38_24 l \<noteq> 0)"

text \<open>
  The opcode list reads as a sequence of whole units: a plain opcode, a \<open>38\<close> followed
  by an opcode other than 5 and 2 (which is then read on its own), \<open>38;5;n\<close>, or
  \<open>38;2;r;g;b\<close>. A list that stops after a \<open>38\<close>, after \<open>38;5\<close>, or inside the
  three components of \<open>38;2\<close> does not.
\<close>

fun whole_units :: "int list \<Rightarrow> bool" where
  "whole_units [] = True"
| "whole_units (c # cs) =
     (if c \<noteq> 38 then whole_units cs
      else case cs of
             [] \<Rightarrow> False
           | d # ds \<Rightarrow>
               if d = 5 then (case ds of [] \<Rightarrow> False | n # rest \<Rightarrow> whole_units rest)
               else if d = 2
               then (case ds of r # g # b # rest \<Rightarrow> whole_units rest | _ \<Rightarrow> False)
               else whole_units cs)"

text \<open>No unit of the list starts with \<open>38;2\<close>.\<close>

fun rgb_free :: "int list \<Rightarrow> bool" where
  "rgb_free [] = True"
| "rgb_free (c # cs) =
     (if c \<noteq> 38 then rgb_free cs
      else case cs of
             [] \<Rightarrow> True
           | d # ds \<Rightarrow>
               if d = 5 then (case ds of [] \<Rightarrow> True | n # rest \<Rightarrow> rgb_free rest)
               else if d = 2 then False
               else rgb_free cs)"

text \<open>
  No flag of the loop of \<open>set_state\<close> is set, and two values of the local variables
  with the same flags.
\<close>

definition idle_flags :: "op_locals \<Rightarrow> bool" where
  "idle_flags l = (\<not> op38 l \<and> \<not> op38_256 l \<and> op38_24 l = 0)"

definition same_flags :: "op_locals \<Rightarrow> op_locals \<Rightarrow> bool" where
  "same_flags l1 l2 =
     (op38 l1 = op38 l2 \<and> op38_256 l1 = op38_256 l2 \<and> op38_24 l1 = op38_24 l2)"

text \<open>The loop variables of \<open>combine\<close> before the loop, for a first token \<open>t0\<close>.\<close>

definition combine_init :: "ustring \<Rightarrow> combine_state" where
  "combine_init t0 =
     \<lparr>res = [t0], prb = False, rb = (length t0 = 1 \<and> any_isrb t0), psgr = (hd t0 = ESC)\<rparr>"

text \<open>The same loop variables with more entries in front of \<open>res\<close>.\<close>

definition shift :: "ustring list \<Rightarrow> combine_state \<Rightarrow> combine_state" where
  "shift r0 st = st\<lparr>res := r0 @ res st\<rparr>"

text \<open>
  A sample environment for the concrete runs. The tables are those of Python on the code
  points below 128, which is all the runs below use: no ASCII character is East-Asian
  wide and the ASCII whitespace is 9 to 13, 28 to 31 and 32. The sample metrics give
  every character width 10, a space width 5, and every token height 10. \<open>sample_int\<close>
  is \<open>int\<close> on strings of ASCII digits.
\<close>

definition sample_db :: unicode_db where
  "sample_db =
     \<lparr>east_asian_width = (\<lambda>c. if 32 \<le> c \<and> c \<le> 126 then EAW_Na else EAW_N),
      isspace = (\<lambda>c. c \<in> {9, 10, 11, 12, 13, 28, 29, 30, 31, 32})\<rparr>"

fun digits_value :: "ustring \<Rightarrow> int \<Rightarrow> int option" where
  "digits_value [] acc = Some acc"
| "digits_value (c # cs) acc =
     (if 48 \<le> c \<and> c \<le> 57 then digits_value cs (10 * acc + int c - 48) else None)"

definition sample_int :: "ustring \<Rightarrow> int option" where
  "sample_int s = (if s = [] then None else digits_value s 0)"

definition sample_runtime :: "string runtime" where
  "sample_runtime =
     \<lparr>db = sample_db,
      textbbox = (\<lambda>wd f. (sum_list (map (\<lambda>c. if c = 32 then 5 else 10) wd), 10)),
      py_int = sample_int\<rparr>"

text \<open>
  The draw state of \<open>examples/test.py\<close> in small: one family with only \<open>Regular\<close>, no
  italic family, line height 10, spacing 4, a region of width 60 at the origin.
\<close>

definition sample_state :: "string TextDrawState" where
  "sample_state =
     \<lparr>land = \<lparr>x = 0, y = 0, w = 60, h = 100\<rparr>, avoid = [],
      fonts = [(regular_only_family ''R'', None)], lineheight = 10,
      curpos = (0, 0), spacing = 4, sgr = SGRState0, palette = [RGBA 0 0 0 255]\<rparr>"

text \<open>
  Vocabulary for the paint positions of one flushed line: the style entries of a queue,
  the measured widths of its text entries, the horizontal position of a paint command,
  and the positions at which text of the given widths is painted when the cursor starts
  at \<open>c\<close> and every token gets the extra advance \<open>d\<close>.
\<close>

definition is_style :: "ustring \<times> int \<Rightarrow> bool" where
  "is_style item = (hd (fst item) = ESC)"

definition text_widths :: "(ustring \<times> int) list \<Rightarrow> int list" where
  "text_widths q = map snd (filter (\<lambda>item. \<not> is_style item) q)"

fun paint_x :: "'f paint \<Rightarrow> rat" where
  "paint_x (Paint pos t c f) = fst pos"

fun positions :: "rat \<Rightarrow> rat \<Rightarrow> int list \<Rightarrow> rat list" where
  "positions c d [] = []"
| "positions c d (k # ks) = c # positions (c + of_int k + d) d ks"

text \<open>
  What the loop of \<open>_text\<close> maintains about its counters: \<open>rw\<close> is the sum of the
  widths of the text entries in the queue and \<open>sty\<close> is the number of its style entries.
\<close>

definition layout_inv :: "text_locals \<Rightarrow> bool" where
  "layout_inv L =
     (rw L = sum_list (text_widths (rq L)) \<and> sty L = int (length (filter is_style (rq L))))"




section \<open>Rect construction\<close>

lemma from_ltrb_fails_iff:
  "isl (from_ltrb (x0, y0) (x1, y1)) \<longleftrightarrow> (x1 < x0) \<noteq> (y1 < y0)"
  by simp

lemma from_ltrb_nonneg: "from_ltrb p q = Inr r \<Longrightarrow> 0 \<le> w r \<and> 0 \<le> h r"
  by (cases p; cases q) (auto split: if_splits)

text \<open>
  Claim C3, as amended. Construction from the corners (0,0) and (10,20) yields width 10
  and height 20, and so does construction from the same two corners in the other order,
  (10,20) and (0,0). Construction from (10,0) and (0,20), where the x coordinates descend
  and the y coordinates ascend, fails with the construction error. Construction from
  (10,0) and (0,-5), where both descend, succeeds with origin (0,-5), width 10, height 5.
\<close>

theorem from_ltrb_corners:
  "from_ltrb (0, 0) (10, 20) = Inr \<lparr>x = 0, y = 0, w = 10, h = 20\<rparr>
   \<and> from_ltrb (10, 20) (0, 0) = Inr \<lparr>x = 0, y = 0, w = 10, h = 20\<rparr>
   \<and> from_ltrb (10, 0) (0, 20) = Inl ArithmeticError
   \<and> from_ltrb (10, 0) (0, -5) = Inr \<lparr>x = 0, y = -5, w = 10, h = 5\<rparr>"
  by simp

text \<open>
  The claim as stated fails: the corners (10,0) and (0,20) do not give the rectangle of
  (0,0) and (10,20), and the corners (10,0) and (0,-5) are not rejected.
\<close>

theorem from_ltrb_counterexample:
  "from_ltrb (10, 0) (0, 20) \<noteq> from_ltrb (0, 0) (10, 20)
   \<and> \<not> isl (from_ltrb (10, 0) (0, -5))"
  by simp

section \<open>Font lookup by weight\<close>

lemma round_div100_cases:
  obtains q k where "i = 100 * q + k" "0 \<le> k" "k < 100"
    "round_div100 i =
       (if k < 50 then q else if k > 50 then q + 1 else if even q then q else q + 1)"
proof -
  have "i = 100 * (i div 100) + i mod 100" "0 \<le> i mod 100" "i mod 100 < 100"
    by simp_all
  moreover have "round_div100 i =
      (if i mod 100 < 50 then i div 100 else if i mod 100 > 50 then i div 100 + 1
       else if even (i div 100) then i div 100 else i div 100 + 1)"
    by (simp add: round_div100_def Let_def)
  ultimately show ?thesis using that by blast
qed

lemma round_div100_range:
  assumes "100 \<le> i" "i \<le> 900"
  shows "1 \<le> round_div100 i \<and> round_div100 i \<le> 9"
proof -
  obtain q k where qk: "i = 100 * q + k" "0 \<le> k" "k < 100"
    and rd: "round_div100 i =
       (if k < 50 then q else if k > 50 then q + 1 else if even q then q else q + 1)"
    by (rule round_div100_cases)
  from assms qk have "1 \<le> q" "q \<le> 9" "q = 9 \<longrightarrow> k = 0" by arith+
  then show ?thesis unfolding rd by auto
qed

lemma round_div100_seven: "round_div100 i = 7 \<longleftrightarrow> 650 < i \<and> i < 750"
proof -
  obtain q k where qk: "i = 100 * q + k" "0 \<le> k" "k < 100"
    and rd: "round_div100 i =
       (if k < 50 then q else if k > 50 then q + 1 else if even q then q else q + 1)"
    by (rule round_div100_cases)
  have par: "even (6::int)" "odd (7::int)" by simp_all
  consider "k < 50" | "k > 50" | "k = 50" by arith
  then show ?thesis
  proof cases
    case 1
    with qk show ?thesis unfolding rd by simp arith
  next
    case 2
    with qk show ?thesis unfolding rd by simp arith
  next
    case 3
    have "q \<noteq> 7 \<or> odd q" "q + 1 \<noteq> 7 \<or> even q" using par by auto
    with 3 qk show ?thesis unfolding rd by simp arith
  qed
qed

lemma select_regular_bold:
  assumes "1 \<le> k" "k \<le> 9"
  shows "select (regular_bold_family f0 f1) k = Inr (if k = 7 then f1 else f0)"
proof -
  from assms have "k \<in> {1, 2, 3, 4, 5, 6, 7, 8, 9}" by auto
  then show ?thesis
    by (auto simp: select_def py_index_def tuple_of_def regular_bold_family_def Let_def)
qed

text \<open>
  Claim C2, as amended. For a FontFamily with only the Regular and Bold variants
  configured, indexing by weight 450 resolves to Regular, and indexing by weight 900
  resolves to Regular as well: the weight is rounded to a slot, and an unset slot falls
  back to the Regular variant, not to the nearest configured one. Exactly the weights
  strictly between 650 and 750 resolve to Bold.
\<close>

theorem getitem_weight_regular_bold:
  "100 \<le> i \<Longrightarrow> i \<le> 900 \<Longrightarrow>
   getitem (regular_bold_family f0 f1) i = Inr (if 650 < i \<and> i < 750 then f1 else f0)"
  using round_div100_range [of i] round_div100_seven [of i]
  by (simp add: getitem_def select_regular_bold)

theorem getitem_weight_regular_bold_witness:
  "getitem (regular_bold_family ''R'' ''B'') 450 = Inr ''R''
   \<and> getitem (regular_bold_family ''R'' ''B'') 900 = Inr ''R''
   \<and> getitem (regular_bold_family ''R'' ''B'') 700 = Inr ''B''"
  using getitem_weight_regular_bold [of 450 "''R''" "''B''"]
    getitem_weight_regular_bold [of 900 "''R''" "''B''"]
    getitem_weight_regular_bold [of 700 "''R''" "''B''"]
  by simp

text \<open>The claim as stated fails: weight 900 does not resolve to the Bold variant.\<close>

theorem getitem_weight_counterexample:
  "getitem (regular_bold_family ''R'' ''B'') 900 = Inr ''R''
   \<and> getitem (regular_bold_family ''R'' ''B'') 900 \<noteq> Inr ''B''"
  by (simp add: getitem_def round_div100_def select_def py_index_def tuple_of_def
      regular_bold_family_def Let_def)

section \<open>Relative font lookup\<close>

text \<open>
  Claim C5 at a failing input. With only the Regular variant configured, one step
  heavier from Regular is clamped to \<open>len(ext) = 1\<close>, which is not an index of \<open>ext\<close>:
  the lookup raises \<open>IndexError\<close> where the claim promises the heaviest configured
  variant. The same happens through \<open>current_font\<close> once the weight delta is 1.
\<close>

theorem find_relative_font_heavier:
  "find_relative_font (regular_only_family ''R'') 1 None = Inl IndexError
   \<and> find_relative_font (regular_bold_family ''R'' ''B'') 1 (Some ''B'') = Inl IndexError
   \<and> find_relative_font (regular_bold_family ''R'' ''B'') (-5) (Some ''B'') = Inr ''R''
   \<and> current_font (sample_state\<lparr>sgr := SGRState0\<lparr>power := 1\<rparr>\<rparr>) = Inl IndexError"
  by (simp add: find_relative_font_def ext_of_def tuple_of_def
      py_index_def regular_only_family_def regular_bold_family_def Let_def
      current_font_def ff_add_def sample_state_def SGRState0_def)

section \<open>The style state machine\<close>

lemma set_state_loop_append:
  "set_state_loop ls (ops1 @ ops2) = set_state_loop (set_state_loop ls ops1) ops2"
  by (induction ops1 arbitrary: ls) simp_all

lemma fg_default_apply_opcode: "fg_default (apply_opcode s opc) = fg_default s"
  by (simp add: apply_opcode_def)

lemma fg_default_step: "fg_default (snd (set_state_step ls opc)) = fg_default (snd ls)"
  by (simp add: set_state_step_def Let_def fg_default_apply_opcode)

lemma fg_default_loop: "fg_default (snd (set_state_loop ls opcodes)) = fg_default (snd ls)"
  by (induction opcodes arbitrary: ls) (simp_all add: fg_default_step)

lemma step_reset:
  "\<not> awaiting_argument (fst ls) \<Longrightarrow>
   snd (set_state_step ls 0) =
     \<lparr>power = 0, italic = False, uline = 0, hline = 0, strike = False, font = 0,
      fg_default = fg_default (snd ls), fg = fg_default (snd ls), fg_rgb = None,
      dot = False\<rparr>"
  by (simp add: set_state_step_def awaiting_argument_def Let_def apply_opcode_def)

text \<open>
  Claim C9, as amended. For every prior style state and every opcode sequence ending in
  0 whose final 0 is not consumed as the palette index or as an RGB component of an
  extended-color prefix before it, the resulting state has weight delta 0, underline
  level 0, overline level 0, font slot 0, italic off, strikethrough off, dot decoration
  off, no RGB override, and foreground equal to the default index of the prior state.
\<close>

theorem set_state_reset:
  "\<not> awaiting_argument (fst (set_state_loop (locals0, s) opcodes)) \<Longrightarrow>
   set_state s (opcodes @ [0]) =
     \<lparr>power = 0, italic = False, uline = 0, hline = 0, strike = False, font = 0,
      fg_default = fg_default s, fg = fg_default s, fg_rgb = None, dot = False\<rparr>"
  using step_reset [of "set_state_loop (locals0, s) opcodes"]
    fg_default_loop [of "(locals0, s)" opcodes]
  by (simp add: set_state_def set_state_loop_append)

theorem set_state_reset_witness:
  "\<not> awaiting_argument
       (fst (set_state_loop (locals0, SGRState0\<lparr>power := 3, fg_default := 7\<rparr>)
              [1, 4, 38, 5, 200]))
   \<and> set_state (SGRState0\<lparr>power := 3, fg_default := 7\<rparr>) [1, 4, 38, 5, 200, 0] =
       \<lparr>power = 0, italic = False, uline = 0, hline = 0, strike = False, font = 0,
        fg_default = 7, fg = 7, fg_rgb = None, dot = False\<rparr>"
proof -
  have idle: "\<not> awaiting_argument
       (fst (set_state_loop (locals0, SGRState0\<lparr>power := 3, fg_default := 7\<rparr>)
              [1, 4, 38, 5, 200]))"
    by (simp add: awaiting_argument_def set_state_step_def locals0_def Let_def)
  from set_state_reset [OF idle] idle show ?thesis by (simp add: SGRState0_def)
qed

text \<open>
  The claim as stated fails: in 38;5;0 the final 0 is the palette index, and in
  38;2;10;20;0 it is the blue component; the weight delta of the prior state survives.
\<close>

theorem set_state_reset_counterexample:
  "power (set_state (SGRState0\<lparr>power := 1\<rparr>) [38, 5, 0]) = 1
   \<and> fg_rgb (set_state SGRState0 [38, 2, 10, 20, 0]) = Some [10, 20, 0]"
  by (simp add: set_state_def set_state_step_def locals0_def SGRState0_def
      apply_opcode_def Let_def)

subsection \<open>Extended-color units and calls\<close>

lemma step_plain:
  "idle_flags l \<Longrightarrow> c \<noteq> 38 \<Longrightarrow> set_state_step (l, s) c = (l, apply_opcode s c)"
  by (simp add: set_state_step_def idle_flags_def Let_def)

lemma step_38: "idle_flags l \<Longrightarrow> set_state_step (l, s) 38 = (l\<lparr>op38 := True\<rparr>, s)"
  by (simp add: set_state_step_def idle_flags_def Let_def apply_opcode_def)

lemma step_38_other:
  "idle_flags l \<Longrightarrow> d \<noteq> 5 \<Longrightarrow> d \<noteq> 2 \<Longrightarrow>
   set_state_step (l\<lparr>op38 := True\<rparr>, s) d = set_state_step (l, s\<lparr>fg_rgb := None\<rparr>) d"
  by (cases l) (simp add: set_state_step_def idle_flags_def Let_def)

lemma step_38_5: "idle_flags l \<Longrightarrow>
   set_state_step (l\<lparr>op38 := True\<rparr>, s) 5 = (l\<lparr>op38 := True, op38_256 := True\<rparr>, s)"
  by (cases l) (simp add: set_state_step_def idle_flags_def Let_def)

lemma step_38_5_n: "idle_flags l \<Longrightarrow>
   set_state_step (l\<lparr>op38 := True, op38_256 := True\<rparr>, s) n = (l, s\<lparr>fg := n, fg_rgb := None\<rparr>)"
  by (cases l) (simp add: set_state_step_def idle_flags_def Let_def)

lemma unit_palette:
  "idle_flags l \<Longrightarrow>
   set_state_loop (l, s) (38 # 5 # n # rest) =
     set_state_loop (l, s\<lparr>fg := n, fg_rgb := None\<rparr>) rest"
  by (simp add: step_38 step_38_5 step_38_5_n)

lemma unit_rgb:
  "idle_flags l \<Longrightarrow>
   set_state_loop (l, s) (38 # 2 # r # g # b # rest) =
     set_state_loop (l\<lparr>op38_24_tmp := op38_24_tmp l @ [r, g, b]\<rparr>,
                     s\<lparr>fg_rgb := Some (op38_24_tmp l @ [r, g, b])\<rparr>) rest"
  by (cases l) (simp add: set_state_step_def idle_flags_def Let_def apply_opcode_def)

lemma unit_38_other:
  "idle_flags l \<Longrightarrow> d \<noteq> 5 \<Longrightarrow> d \<noteq> 2 \<Longrightarrow>
   set_state_loop (l, s) (38 # d # ds) = set_state_loop (l, s\<lparr>fg_rgb := None\<rparr>) (d # ds)"
  by (simp add: step_38 step_38_other)

lemma unit_plain:
  "idle_flags l \<Longrightarrow> c \<noteq> 38 \<Longrightarrow>
   set_state_loop (l, s) (c # cs) = set_state_loop (l, apply_opcode s c) cs"
  by (simp add: step_plain)

lemma unit_induct [case_names Nil Plain Bare Other Pal1 Pal Rgb_short Rgb]:
  assumes "P []"
    and "\<And>c cs. c \<noteq> 38 \<Longrightarrow> P cs \<Longrightarrow> P (c # cs)"
    and "P [38]"
    and "\<And>d ds. d \<noteq> 5 \<Longrightarrow> d \<noteq> 2 \<Longrightarrow> P (d # ds) \<Longrightarrow> P (38 # d # ds)"
    and "P [38, 5]"
    and "\<And>n rest. P rest \<Longrightarrow> P (38 # 5 # n # rest)"
    and "\<And>ds. length ds < 3 \<Longrightarrow> P (38 # 2 # ds)"
    and "\<And>r g b rest. P rest \<Longrightarrow> P (38 # 2 # r # g # b # rest)"
  shows "P (opcodes :: int list)"
proof (induction opcodes rule: length_induct)
  case (1 xs)
  show ?case
  proof (cases xs)
    case Nil
    with assms(1) show ?thesis by simp
  next
    case (Cons c cs)
    show ?thesis
    proof (cases "c = 38")
      case False
      with Cons 1 assms(2) show ?thesis by simp
    next
      case True
      show ?thesis
      proof (cases cs)
        case Nil
        with True Cons assms(3) show ?thesis by simp
      next
        case c2: (Cons d ds)
        consider "d = 5" | "d = 2" | "d \<noteq> 5" "d \<noteq> 2" by blast
        then show ?thesis
        proof cases
          case 1
          show ?thesis
          proof (cases ds)
            case Nil
            with 1 True Cons c2 assms(5) show ?thesis by simp
          next
            case c3: (Cons n rest)
            with 1 True Cons c2 "1.IH" assms(6) [of rest n] show ?thesis by simp
          qed
        next
          case 2
          show ?thesis
          proof (cases "length ds < 3")
            case True
            with 2 \<open>c = 38\<close> Cons c2 assms(7) show ?thesis by simp
          next
            case False
            then obtain r g b rest where "ds = r # g # b # rest"
              by (cases ds; cases "tl ds"; cases "tl (tl ds)") auto
            with 2 \<open>c = 38\<close> Cons c2 "1.IH" assms(8) [of rest r g b] show ?thesis by simp
          qed
        next
          case 3
          with True Cons c2 "1.IH" assms(4) [of d ds] show ?thesis by simp
        qed
      qed
    qed
  qed
qed

lemma whole_units_idle:
  "idle_flags l \<Longrightarrow> whole_units opcodes \<Longrightarrow> idle_flags (fst (set_state_loop (l, s) opcodes))"
proof (induction opcodes arbitrary: l s rule: unit_induct)
  case Nil
  then show ?case by simp
next
  case (Plain c cs)
  then show ?case by (simp add: unit_plain del: set_state_loop.simps)
next
  case Bare
  then show ?case by simp
next
  case (Other d ds)
  then show ?case by (simp add: unit_38_other del: set_state_loop.simps)
next
  case Pal1
  then show ?case by simp
next
  case (Pal n rest)
  then show ?case by (simp add: unit_palette del: set_state_loop.simps)
next
  case (Rgb_short ds)
  then show ?case by (auto split: list.splits)
next
  case (Rgb r g b rest)
  have "idle_flags (l\<lparr>op38_24_tmp := op38_24_tmp l @ [r, g, b]\<rparr>)"
    using Rgb.prems(1) by (simp add: idle_flags_def)
  with Rgb show ?case by (simp add: unit_rgb del: set_state_loop.simps)
qed

lemma rgb_free_tmp:
  "idle_flags l \<Longrightarrow> rgb_free opcodes \<Longrightarrow>
   set_state_loop (l\<lparr>op38_24_tmp := t\<rparr>, s) opcodes =
     (fst (set_state_loop (l, s) opcodes)\<lparr>op38_24_tmp := t\<rparr>, snd (set_state_loop (l, s) opcodes))
   \<and> op38_24_tmp (fst (set_state_loop (l, s) opcodes)) = op38_24_tmp l"
proof (induction opcodes arbitrary: l s rule: unit_induct)
  case Nil
  then show ?case by simp
next
  case (Plain c cs)
  have "idle_flags (l\<lparr>op38_24_tmp := t\<rparr>)" using Plain.prems(1) by (simp add: idle_flags_def)
  with Plain show ?case by (simp add: unit_plain del: set_state_loop.simps)
next
  case Bare
  have "idle_flags (l\<lparr>op38_24_tmp := t\<rparr>)" using Bare.prems(1) by (simp add: idle_flags_def)
  with Bare show ?case by (simp add: step_38)
next
  case (Other d ds)
  have "idle_flags (l\<lparr>op38_24_tmp := t\<rparr>)" using Other.prems(1) by (simp add: idle_flags_def)
  with Other show ?case by (simp add: unit_38_other del: set_state_loop.simps)
next
  case Pal1
  have "idle_flags (l\<lparr>op38_24_tmp := t\<rparr>)" using Pal1.prems(1) by (simp add: idle_flags_def)
  with Pal1 show ?case by (simp add: step_38 step_38_5)
next
  case (Pal n rest)
  have "idle_flags (l\<lparr>op38_24_tmp := t\<rparr>)" using Pal.prems(1) by (simp add: idle_flags_def)
  with Pal show ?case by (simp add: unit_palette del: set_state_loop.simps)
next
  case (Rgb_short ds)
  then show ?case by simp
next
  case (Rgb r g b rest)
  then show ?case by simp
qed


lemma idle_same_flags: "idle_flags l \<Longrightarrow> same_flags l locals0"
  by (simp add: idle_flags_def same_flags_def locals0_def)

lemma apply_opcode_mod_rgb:
  "s1\<lparr>fg_rgb := None\<rparr> = s2\<lparr>fg_rgb := None\<rparr> \<Longrightarrow>
   (apply_opcode s1 opc)\<lparr>fg_rgb := None\<rparr> = (apply_opcode s2 opc)\<lparr>fg_rgb := None\<rparr>"
  by (cases s1; cases s2) (simp add: apply_opcode_def)

lemma step_mod_rgb:
  assumes "same_flags l1 l2" "s1\<lparr>fg_rgb := None\<rparr> = s2\<lparr>fg_rgb := None\<rparr>"
  shows "same_flags (fst (set_state_step (l1, s1) opc)) (fst (set_state_step (l2, s2) opc))
       \<and> (snd (set_state_step (l1, s1) opc))\<lparr>fg_rgb := None\<rparr>
           = (snd (set_state_step (l2, s2) opc))\<lparr>fg_rgb := None\<rparr>"
proof -
  have a: "(apply_opcode s1 k)\<lparr>fg_rgb := None\<rparr> = (apply_opcode s2 k)\<lparr>fg_rgb := None\<rparr>" for k
    using assms(2) by (rule apply_opcode_mod_rgb)
  have b: "(apply_opcode (s1\<lparr>fg_rgb := None\<rparr>) k)\<lparr>fg_rgb := None\<rparr>
         = (apply_opcode (s2\<lparr>fg_rgb := None\<rparr>) k)\<lparr>fg_rgb := None\<rparr>" for k
    using assms(2) by simp
  have c: "s1\<lparr>fg := opc, fg_rgb := None\<rparr> = s2\<lparr>fg := opc, fg_rgb := None\<rparr>"
    using assms(2) by (cases s1; cases s2) simp
  have d: "s1\<lparr>fg_rgb := Some u, fg_rgb := None\<rparr> = s2\<lparr>fg_rgb := Some v, fg_rgb := None\<rparr>" for u v
    using assms(2) by simp
  from assms(1) a b c d assms(2) show ?thesis
    by (simp add: set_state_step_def same_flags_def Let_def)
qed

lemma loop_mod_rgb:
  "same_flags l1 l2 \<Longrightarrow> s1\<lparr>fg_rgb := None\<rparr> = s2\<lparr>fg_rgb := None\<rparr> \<Longrightarrow>
   same_flags (fst (set_state_loop (l1, s1) opcodes)) (fst (set_state_loop (l2, s2) opcodes))
   \<and> (snd (set_state_loop (l1, s1) opcodes))\<lparr>fg_rgb := None\<rparr>
       = (snd (set_state_loop (l2, s2) opcodes))\<lparr>fg_rgb := None\<rparr>"
proof (induction opcodes arbitrary: l1 s1 l2 s2)
  case Nil
  then show ?case by simp
next
  case (Cons opc opcodes)
  obtain m1 t1 where a: "set_state_step (l1, s1) opc = (m1, t1)"
    by (cases "set_state_step (l1, s1) opc")
  obtain m2 t2 where b: "set_state_step (l2, s2) opc = (m2, t2)"
    by (cases "set_state_step (l2, s2) opc")
  from step_mod_rgb [OF Cons.prems, of opc] a b
  have "same_flags m1 m2" "t1\<lparr>fg_rgb := None\<rparr> = t2\<lparr>fg_rgb := None\<rparr>" by simp_all
  from Cons.IH [OF this] a b show ?case by simp
qed

lemma calls_mod_rgb:
  "idle_flags l \<Longrightarrow> (\<forall>c \<in> set (butlast chunks). whole_units c) \<Longrightarrow>
   s1\<lparr>fg_rgb := None\<rparr> = s2\<lparr>fg_rgb := None\<rparr> \<Longrightarrow>
   (snd (set_state_loop (l, s1) (concat chunks)))\<lparr>fg_rgb := None\<rparr>
     = (foldl set_state s2 chunks)\<lparr>fg_rgb := None\<rparr>"
proof (induction chunks arbitrary: l s1 s2)
  case Nil
  then show ?case by simp
next
  case (Cons c cs)
  obtain m1 t1 where a: "set_state_loop (l, s1) c = (m1, t1)"
    by (cases "set_state_loop (l, s1) c")
  from loop_mod_rgb [OF idle_same_flags [OF Cons.prems(1)] Cons.prems(3), of c] a
  have eq: "t1\<lparr>fg_rgb := None\<rparr> = (set_state s2 c)\<lparr>fg_rgb := None\<rparr>"
    by (simp add: set_state_def)
  show ?case
  proof (cases "cs = []")
    case True
    with a eq show ?thesis by simp
  next
    case False
    with Cons.prems(2) have w: "whole_units c" and rest: "\<forall>c \<in> set (butlast cs). whole_units c"
      by simp_all
    from whole_units_idle [OF Cons.prems(1) w, of s1] a have "idle_flags m1" by simp
    from Cons.IH [OF this rest eq] a show ?thesis by (simp add: set_state_loop_append)
  qed
qed

lemma idle_flags_eq: "idle_flags l \<Longrightarrow> l = locals0\<lparr>op38_24_tmp := op38_24_tmp l\<rparr>"
  by (cases l) (simp add: idle_flags_def locals0_def)

lemma rgb_free_from_idle:
  assumes "idle_flags l" "rgb_free c"
  shows "snd (set_state_loop (l, s) c) = set_state s c"
    and "op38_24_tmp (fst (set_state_loop (l, s) c)) = op38_24_tmp l"
proof -
  have i0: "idle_flags locals0" by (simp add: idle_flags_def locals0_def)
  from rgb_free_tmp [OF i0 assms(2), of "op38_24_tmp l" s] idle_flags_eq [OF assms(1)]
  have "set_state_loop (l, s) c =
      (fst (set_state_loop (locals0, s) c)\<lparr>op38_24_tmp := op38_24_tmp l\<rparr>,
       snd (set_state_loop (locals0, s) c))"
    by simp
  then show "snd (set_state_loop (l, s) c) = set_state s c"
    and "op38_24_tmp (fst (set_state_loop (l, s) c)) = op38_24_tmp l"
    by (simp_all add: set_state_def)
qed

lemma calls_exact:
  "idle_flags l \<Longrightarrow> (\<forall>c \<in> set (butlast chunks). whole_units c) \<Longrightarrow>
   (op38_24_tmp l = [] \<and> length (filter (\<lambda>c. \<not> rgb_free c) chunks) \<le> 1)
     \<or> (\<forall>c \<in> set chunks. rgb_free c) \<Longrightarrow>
   snd (set_state_loop (l, s) (concat chunks)) = foldl set_state s chunks"
proof (induction chunks arbitrary: l s)
  case Nil
  then show ?case by simp
next
  case (Cons c cs)
  obtain m1 t1 where a: "set_state_loop (l, s) c = (m1, t1)"
    by (cases "set_state_loop (l, s) c")
  have first: "t1 = set_state s c"
  proof (cases "rgb_free c")
    case True
    from rgb_free_from_idle(1) [OF Cons.prems(1) True, of s] a show ?thesis by simp
  next
    case False
    with Cons.prems(3) have "op38_24_tmp l = []" by auto
    with idle_flags_eq [OF Cons.prems(1)] have "l = locals0" by (simp add: locals0_def)
    with a show ?thesis by (simp add: set_state_def)
  qed
  show ?case
  proof (cases "cs = []")
    case True
    with a first show ?thesis by simp
  next
    case False
    with Cons.prems(2) have w: "whole_units c" and rest: "\<forall>c \<in> set (butlast cs). whole_units c"
      by simp_all
    from whole_units_idle [OF Cons.prems(1) w, of s] a have idle: "idle_flags m1" by simp
    have cond: "(op38_24_tmp m1 = [] \<and> length (filter (\<lambda>c. \<not> rgb_free c) cs) \<le> 1)
         \<or> (\<forall>c \<in> set cs. rgb_free c)"
    proof (cases "rgb_free c")
      case True
      from rgb_free_from_idle(2) [OF Cons.prems(1) True, of s] a
      have "op38_24_tmp m1 = op38_24_tmp l" by simp
      with Cons.prems(3) True show ?thesis by auto
    next
      case False
      with Cons.prems(3) have "length (filter (\<lambda>c. \<not> rgb_free c) cs) = 0" by auto
      then show ?thesis by (simp add: filter_empty_conv)
    qed
    from Cons.IH [OF idle rest cond, of t1] a first show ?thesis
      by (simp add: set_state_loop_append)
  qed
qed

lemma palette_unit_effect:
  assumes "whole_units pre"
  shows "set_state s (pre @ [38, 5, n]) = (set_state s pre)\<lparr>fg := n, fg_rgb := None\<rparr>"
proof -
  have i0: "idle_flags locals0" by (simp add: idle_flags_def locals0_def)
  obtain m1 t1 where a: "set_state_loop (locals0, s) pre = (m1, t1)"
    by (cases "set_state_loop (locals0, s) pre")
  from whole_units_idle [OF i0 assms, of s] a have "idle_flags m1" by simp
  from unit_palette [OF this, of t1 n "[]"] a show ?thesis
    by (simp add: set_state_def set_state_loop_append del: set_state_loop.simps(2))
qed

lemma rgb_unit_effect:
  assumes "whole_units pre" "rgb_free pre"
  shows "set_state s (pre @ [38, 2, r, g, b]) = (set_state s pre)\<lparr>fg_rgb := Some [r, g, b]\<rparr>"
proof -
  have i0: "idle_flags locals0" by (simp add: idle_flags_def locals0_def)
  obtain m1 t1 where a: "set_state_loop (locals0, s) pre = (m1, t1)"
    by (cases "set_state_loop (locals0, s) pre")
  from whole_units_idle [OF i0 assms(1), of s] a have idle: "idle_flags m1" by simp
  from rgb_free_from_idle(2) [OF i0 assms(2), of s] a have "op38_24_tmp m1 = []"
    by (simp add: locals0_def)
  with unit_rgb [OF idle, of t1 r g b "[]"] a show ?thesis
    by (simp add: set_state_def set_state_loop_append del: set_state_loop.simps(2))
qed

text \<open>
  Reading as whole units is exactly the condition that the loop, started with no flag
  set, ends with no flag set: the cuts excluded are the cuts inside a unit.
\<close>

lemma rgb_short_pending:
  assumes "idle_flags l" "length ds < 3"
  shows "\<not> idle_flags (fst (set_state_loop (l, s) (38 # 2 # ds)))"
proof -
  from assms(2) consider "ds = []" | a where "ds = [a]" | a b where "ds = [a, b]"
    by (cases ds; cases "tl ds"; cases "tl (tl ds)") auto
  then show ?thesis
    using assms(1)
    by cases (simp_all add: set_state_step_def idle_flags_def Let_def apply_opcode_def)
qed

lemma whole_units_iff_idle:
  "idle_flags l \<Longrightarrow> idle_flags (fst (set_state_loop (l, s) opcodes)) = whole_units opcodes"
proof (induction opcodes arbitrary: l s rule: unit_induct)
  case Nil
  then show ?case by simp
next
  case (Plain c cs)
  then show ?case by (simp add: unit_plain del: set_state_loop.simps)
next
  case Bare
  then show ?case by (simp add: step_38 idle_flags_def)
next
  case (Other d ds)
  then show ?case by (simp add: unit_38_other del: set_state_loop.simps)
next
  case Pal1
  then show ?case by (simp add: step_38 step_38_5 idle_flags_def)
next
  case (Pal n rest)
  then show ?case by (simp add: unit_palette del: set_state_loop.simps)
next
  case (Rgb_short ds)
  from rgb_short_pending [OF Rgb_short.prems Rgb_short.hyps, of s] Rgb_short.hyps
  show ?case by (auto split: list.splits)
next
  case (Rgb r g b rest)
  have "idle_flags (l\<lparr>op38_24_tmp := op38_24_tmp l @ [r, g, b]\<rparr>)"
    using Rgb.prems by (simp add: idle_flags_def)
  with Rgb show ?case by (simp add: unit_rgb del: set_state_loop.simps)
qed

lemma trailing_38_lost:
  assumes "whole_units pre"
  shows "set_state s (pre @ [38]) = set_state s pre"
proof -
  have i0: "idle_flags locals0" by (simp add: idle_flags_def locals0_def)
  obtain m1 t1 where a: "set_state_loop (locals0, s) pre = (m1, t1)"
    by (cases "set_state_loop (locals0, s) pre")
  from whole_units_idle [OF i0 assms, of s] a have "idle_flags m1" by simp
  from step_38 [OF this, of t1] a show ?thesis
    by (simp add: set_state_def set_state_loop_append)
qed

text \<open>
  Claim C4, as amended. The pending extended-color expectation is carried over between
  the opcodes of one call: after a prefix of whole units, \<open>38;5;n\<close> in the same call
  sets the foreground to \<open>n\<close> and clears the RGB override, and \<open>38;2;r;g;b\<close> sets the
  RGB override to \<open>(r, g, b)\<close> when it is the first RGB unit of the call. The
  expectation is not retained between calls: a \<open>38\<close> at the end of a call is lost.
  For every opcode sequence and every way of splitting it into consecutive calls that
  cuts only between whole units, the resulting style state is the same as for a single
  call in every field other than the RGB override, and in the RGB override as well
  when the \<open>38;2\<close> units of the sequence all lie in one of the calls. How several RGB
  units of one call combine is left open.
\<close>

theorem set_state_units:
  "(whole_units pre \<longrightarrow>
      set_state s (pre @ [38, 5, n]) = (set_state s pre)\<lparr>fg := n, fg_rgb := None\<rparr>
      \<and> set_state s (pre @ [38]) = set_state s pre)
   \<and> (whole_units pre \<and> rgb_free pre \<longrightarrow>
      set_state s (pre @ [38, 2, r, g, b]) = (set_state s pre)\<lparr>fg_rgb := Some [r, g, b]\<rparr>)
   \<and> ((\<forall>c \<in> set (butlast chunks). whole_units c) \<longrightarrow>
      (foldl set_state s chunks)\<lparr>fg_rgb := None\<rparr>
        = (set_state s (concat chunks))\<lparr>fg_rgb := None\<rparr>)
   \<and> ((\<forall>c \<in> set (butlast chunks). whole_units c)
        \<and> length (filter (\<lambda>c. \<not> rgb_free c) chunks) \<le> 1 \<longrightarrow>
      foldl set_state s chunks = set_state s (concat chunks))"
proof -
  have i0: "idle_flags locals0" "op38_24_tmp locals0 = []"
    by (simp_all add: idle_flags_def locals0_def)
  have "(\<forall>c \<in> set (butlast chunks). whole_units c) \<Longrightarrow>
      (foldl set_state s chunks)\<lparr>fg_rgb := None\<rparr>
        = (set_state s (concat chunks))\<lparr>fg_rgb := None\<rparr>"
    using calls_mod_rgb [OF i0(1), of chunks s s] by (simp add: set_state_def)
  moreover have "(\<forall>c \<in> set (butlast chunks). whole_units c) \<Longrightarrow>
      length (filter (\<lambda>c. \<not> rgb_free c) chunks) \<le> 1 \<Longrightarrow>
      foldl set_state s chunks = set_state s (concat chunks)"
    using calls_exact [OF i0(1), of chunks s] i0(2) by (simp add: set_state_def)
  ultimately show ?thesis
    using palette_unit_effect [of pre s n] rgb_unit_effect [of pre s r g b]
      trailing_38_lost [of pre s]
    by blast
qed

theorem set_state_units_witness:
  "whole_units [1, 38, 5, 100] \<and> rgb_free [1, 38, 5, 100]
   \<and> set_state SGRState0 ([1, 38, 5, 100] @ [38, 5, 7])
       = (set_state SGRState0 [1, 38, 5, 100])\<lparr>fg := 7, fg_rgb := None\<rparr>
   \<and> set_state SGRState0 ([1, 38, 5, 100] @ [38]) = set_state SGRState0 [1, 38, 5, 100]
   \<and> set_state SGRState0 ([1, 38, 5, 100] @ [38, 2, 7, 8, 9])
       = (set_state SGRState0 [1, 38, 5, 100])\<lparr>fg_rgb := Some [7, 8, 9]\<rparr>
   \<and> foldl set_state SGRState0 [[38, 2, 1, 2, 3], [1], [38, 5, 7], [4, 38]]
       = set_state SGRState0 (concat [[38, 2, 1, 2, 3], [1], [38, 5, 7], [4, 38]])
   \<and> set_state SGRState0 [1, 38, 5, 100] = SGRState0\<lparr>power := 1, fg := 100\<rparr>"
proof -
  have p: "whole_units [1, 38, 5, 100]" "rgb_free [1, 38, 5, 100]"
    by simp_all
  have c: "\<forall>c \<in> set (butlast [[38, 2, 1, 2, 3], [1], [38, 5, 7], [4, 38 :: int]]). whole_units c"
    "length (filter (\<lambda>c. \<not> rgb_free c) [[38, 2, 1, 2, 3], [1], [38, 5, 7], [4, 38]]) \<le> 1"
    by simp_all
  have v: "set_state SGRState0 [1, 38, 5, 100] = SGRState0\<lparr>power := 1, fg := 100\<rparr>"
    by (simp add: set_state_def set_state_step_def locals0_def SGRState0_def
        apply_opcode_def Let_def)
  from set_state_units [of "[1, 38, 5, 100]" SGRState0 7 7 8 9
      "[[38, 2, 1, 2, 3], [1], [38, 5, 7], [4, 38]]"] p c v
  show ?thesis by blast
qed

text \<open>
  The claim as stated fails: a cut after the \<open>38\<close> of \<open>38;5;100\<close> loses the palette
  index, and a cut inside \<open>38;2;1;2;3\<close> loses the RGB override and reads the last two
  components as the opcodes 2 and 3.
\<close>

theorem set_state_calls_counterexample:
  "set_state (set_state SGRState0 [38]) [5, 100] \<noteq> set_state SGRState0 [38, 5, 100]
   \<and> fg (set_state SGRState0 [38, 5, 100]) = 100
   \<and> fg (set_state (set_state SGRState0 [38]) [5, 100]) = 0
   \<and> fg_rgb (set_state SGRState0 [38, 2, 1, 2, 3]) = Some [1, 2, 3]
   \<and> set_state (set_state SGRState0 [38, 2, 1]) [2, 3]
       = SGRState0\<lparr>power := - 1, italic := True\<rparr>"
  by (simp add: set_state_def set_state_step_def locals0_def SGRState0_def
      apply_opcode_def Let_def)

section \<open>Segmentation\<close>

lemma first_index_less: "first_index P cs = Some i \<Longrightarrow> i < length cs"
  by (induction cs arbitrary: i) (auto split: if_splits)

lemma findcsiend_le: "text \<noteq> [] \<Longrightarrow> findcsiend text \<le> length text"
  by (auto simp: findcsiend_def split: option.splits dest!: first_index_less)

lemma findword_le: "findword d s \<le> length s"
  by (auto simp: findword_def split: option.splits dest!: first_index_less)

lemma split_loop_concat:
  "base \<le> length t \<Longrightarrow>
   \<exists>toks. split_loop d t base acc = Inr toks \<and> concat toks = concat acc @ drop base t"
proof (induction d t base acc rule: split_loop.induct)
  case (1 d t base acc)
  show ?case
  proof (cases "base = length t")
    case True
    then show ?thesis by (simp add: split_loop.simps)
  next
    case False
    with "1.prems" have lt: "base < length t" by simp
    define k where
      "k = (if t ! base = ESC then findcsiend (drop base t) else findword d (drop base t))"
    have kle: "k \<le> length t - base"
      using lt findcsiend_le [of "drop base t"] findword_le [of d "drop base t"]
      by (simp add: k_def)
    show ?thesis
    proof (cases "k = 0")
      case True
      from lt have "Suc base \<le> length t" by simp
      with "1.IH"(1) [OF False _ k_def True] lt
      obtain toks where "split_loop d t (base + 1) (acc @ [[t ! base]]) = Inr toks"
        and "concat toks = concat (acc @ [[t ! base]]) @ drop (base + 1) t"
        by auto
      moreover have "split_loop d t base acc = split_loop d t (base + 1) (acc @ [[t ! base]])"
        using lt True by (subst split_loop.simps) (simp add: k_def [symmetric])
      ultimately show ?thesis using lt by (simp add: Cons_nth_drop_Suc)
    next
      case nz: False
      from kle lt have "base + k \<le> length t" by simp
      with "1.IH"(2) [OF False _ k_def nz] lt
      obtain toks where "split_loop d t (base + k) (acc @ [take k (drop base t)]) = Inr toks"
        and "concat toks = concat (acc @ [take k (drop base t)]) @ drop (base + k) t"
        by auto
      moreover have
        "split_loop d t base acc = split_loop d t (base + k) (acc @ [take k (drop base t)])"
        using lt nz by (subst split_loop.simps) (simp add: k_def [symmetric])
      moreover have "take k (drop base t) @ drop (base + k) t = drop base t"
        using append_take_drop_id [of k "drop base t"] by (simp add: add.commute)
      ultimately show ?thesis by simp
    qed
  qed
qed

text \<open>
  Claim C8. For every input string and whatever the Unicode tables say, segmentation
  returns a token list, and the concatenation of all emitted tokens in order, style
  tokens included as they are, is the original string.
\<close>

theorem split_roundtrip: "\<exists>toks. split d t = Inr toks \<and> concat toks = t"
  using split_loop_concat [of 0 t d "[]"] by (simp add: split_def)

section \<open>Punctuation binding\<close>

lemmas combine_eval =
  combine_def combine_step_def any_isrb_def any_islb_def any_ispunc_def P_RULES_def
  isrb_def islb_def WesternPuncRule_def CJKPuncRule_def append_last_def ESC_def Let_def
  ustr_def

text \<open>
  Claim C6 at a failing input. A single-character token that is absorbed because the
  token before it binds to the right, and that itself binds to the left, is appended
  twice: the two tokens \<open>(\<close> and \<open>)\<close> become the one entry \<open>())\<close>, and the two tokens
  U+300A and U+300B, which segmentation emits for that two-character text, become one
  entry with U+300B twice. The concatenation of the output is not that of the input.
\<close>

theorem combine_duplicates:
  "combine [ustr ''('', ustr '')''] = Inr [ustr ''())'']
   \<and> combine [[12298], [12299]] = Inr [[12298, 12299, 12299]]
   \<and> combine [[8212], [8212]] = Inr [[8212, 8212, 8212]]"
  by (simp add: combine_eval)

lemma combine_Cons:
  "combine (t0 # ts) =
     (if t0 = [] then Inl IndexError
      else case combine_loop (combine_init t0) ts of
             Inl e \<Rightarrow> Inl e
           | Inr st \<Rightarrow> Inr (res st))"
  by (simp add: combine_def combine_init_def)

lemma py_in_single: "py_in [c] s = (c \<in> set s)"
  by (induction s) auto

lemma isrb_ispunc: "any_isrb [c] \<Longrightarrow> any_ispunc [c]"
  by (auto simp: any_isrb_def any_ispunc_def isrb_def py_in_single list_ex_iff)

lemma not_isrb_ESC: "\<not> any_isrb [ESC]"
  by (simp add: any_isrb_def isrb_def py_in_single P_RULES_def WesternPuncRule_def
      CJKPuncRule_def ESC_def)

lemma style_init_rb: "hd t0 = ESC \<Longrightarrow> \<not> (length t0 = 1 \<and> any_isrb t0)"
proof
  assume esc: "hd t0 = ESC" and one: "length t0 = 1 \<and> any_isrb t0"
  then obtain c where "t0 = [c]" by (cases t0) auto
  with esc one not_isrb_ESC show False by simp
qed

lemma append_last_shift: "r \<noteq> [] \<Longrightarrow> append_last (r0 @ r) wd = r0 @ append_last r wd"
  by (simp add: append_last_def butlast_append)

lemma append_last_nonempty: "append_last r wd \<noteq> []"
  by (simp add: append_last_def)

lemma combine_step_shift:
  assumes "res st \<noteq> []"
  shows "combine_step (shift r0 st) wd = map_sum id (shift r0) (combine_step st wd)"
  using assms
  by (cases st)
    (auto simp: combine_step_def shift_def Let_def append_last_shift append_last_nonempty)

lemma combine_step_nonempty:
  "res st \<noteq> [] \<Longrightarrow> combine_step st wd = Inr st' \<Longrightarrow> res st' \<noteq> []"
  by (auto simp: combine_step_def Let_def append_last_nonempty split: if_splits)

lemma combine_loop_shift:
  "res st \<noteq> [] \<Longrightarrow>
   combine_loop (shift r0 st) ts = map_sum id (shift r0) (combine_loop st ts)"
proof (induction ts arbitrary: st)
  case Nil
  show ?case by simp
next
  case (Cons wd ts)
  show ?case
  proof (cases "combine_step st wd")
    case (Inl e)
    with Cons.prems show ?thesis by (simp add: combine_step_shift)
  next
    case (Inr st')
    with Cons.prems have "res st' \<noteq> []" by (rule combine_step_nonempty)
    from Cons.IH [OF this] Inr Cons.prems show ?thesis by (simp add: combine_step_shift)
  qed
qed

lemma combine_loop_append:
  "combine_loop st (ts @ us) =
     (case combine_loop st ts of Inl e \<Rightarrow> Inl e | Inr st' \<Rightarrow> combine_loop st' us)"
  by (induction ts arbitrary: st) (simp_all split: sum.splits)

lemma step_after_style:
  assumes "p0 \<noteq> []"
  shows "combine_step \<lparr>res = r0, prb = False, rb = False, psgr = True\<rparr> p0 =
           Inr (shift r0 (combine_init p0))"
proof (cases "hd p0 = ESC")
  case True
  with assms style_init_rb [OF True] show ?thesis
    by (simp add: combine_step_def shift_def combine_init_def)
next
  case False
  have "length p0 = 1 \<and> any_isrb p0 \<Longrightarrow> any_ispunc p0"
  proof -
    assume one: "length p0 = 1 \<and> any_isrb p0"
    then obtain c where "p0 = [c]" by (cases p0) auto
    with one isrb_ispunc show ?thesis by simp
  qed
  with assms False show ?thesis
    by (auto simp: combine_step_def shift_def combine_init_def Let_def)
qed

lemma loop_after_style:
  assumes "combine post = Inr out"
  shows "\<exists>st'. combine_loop \<lparr>res = r0, prb = False, rb = False, psgr = True\<rparr> post = Inr st'
           \<and> res st' = r0 @ out"
proof (cases post)
  case Nil
  with assms show ?thesis by (simp add: combine_def)
next
  case (Cons p0 ps)
  with assms have ne: "p0 \<noteq> []" by (auto simp: combine_Cons split: if_splits)
  with assms Cons obtain stb
    where stb: "combine_loop (combine_init p0) ps = Inr stb" "res stb = out"
    by (auto simp: combine_Cons split: sum.splits)
  have "res (combine_init p0) \<noteq> []" by (simp add: combine_init_def)
  from combine_loop_shift [OF this, of r0 ps] stb step_after_style [OF ne, of r0] Cons
  show ?thesis by (simp add: shift_def)
qed

lemma step_style:
  "tok \<noteq> [] \<Longrightarrow> hd tok = ESC \<Longrightarrow>
   combine_step st tok = Inr \<lparr>res = res st @ [tok], prb = False, rb = False, psgr = True\<rparr>"
  by (simp add: combine_step_def)

lemma combine_style_boundary:
  assumes tok: "tok \<noteq> []" "hd tok = ESC"
    and pre: "combine pre = Inr out1" and post: "combine post = Inr out2"
  shows "combine (pre @ tok # post) = Inr (out1 @ tok # out2)"
proof (cases pre)
  case Nil
  with pre have e: "out1 = []" by (simp add: combine_def)
  have "combine_init tok = \<lparr>res = [tok], prb = False, rb = False, psgr = True\<rparr>"
    using tok style_init_rb [of tok] by (simp add: combine_init_def)
  with loop_after_style [OF post, of "[tok]"] Nil e tok show ?thesis
    by (auto simp: combine_Cons)
next
  case (Cons q0 qs)
  with pre have ne: "q0 \<noteq> []" by (auto simp: combine_Cons split: if_splits)
  with pre Cons obtain sta
    where sta: "combine_loop (combine_init q0) qs = Inr sta" "res sta = out1"
    by (auto simp: combine_Cons split: sum.splits)
  from loop_after_style [OF post, of "out1 @ [tok]"] sta tok Cons ne show ?thesis
    by (auto simp: combine_Cons combine_loop_append step_style)
qed

text \<open>
  Claim C7. Punctuation binding applied to the tokens \<open>word\<close>, \<open>ESC [1m\<close> and the comma
  leaves the comma as its own entry. In general a style token resets all binding state
  as if at input start: binding the tokens before a style token and the tokens after it
  separately, and putting the style token between the two results, gives the result of
  binding the whole sequence.
\<close>

theorem combine_style_token:
  "combine [ustr ''word'', ESC # ustr ''[1m'', ustr '',''] =
     Inr [ustr ''word'', ESC # ustr ''[1m'', ustr '','']
   \<and> (\<forall>tok pre post out1 out2.
         tok \<noteq> [] \<and> hd tok = ESC \<and> combine pre = Inr out1 \<and> combine post = Inr out2
         \<longrightarrow> combine (pre @ tok # post) = Inr (out1 @ tok # out2))"
proof
  show "combine [ustr ''word'', ESC # ustr ''[1m'', ustr '',''] =
     Inr [ustr ''word'', ESC # ustr ''[1m'', ustr '','']"
    by (simp add: combine_eval)
  show "\<forall>tok pre post out1 out2.
         tok \<noteq> [] \<and> hd tok = ESC \<and> combine pre = Inr out1 \<and> combine post = Inr out2
         \<longrightarrow> combine (pre @ tok # post) = Inr (out1 @ tok # out2)"
    using combine_style_boundary by blast
qed

theorem combine_style_token_witness:
  "combine [ustr ''a'', ustr ''(''] = Inr [ustr ''a'', ustr ''('']
   \<and> combine [ustr ''b'', ustr '',''] = Inr [ustr ''b,'']
   \<and> combine ([ustr ''a'', ustr ''(''] @ (ESC # ustr ''[1m'') # [ustr ''b'', ustr '','']) =
       Inr ([ustr ''a'', ustr ''(''] @ (ESC # ustr ''[1m'') # [ustr ''b,''])
   \<and> combine [ustr ''a'', ustr ''('', ustr ''b'', ustr '',''] = Inr [ustr ''a'', ustr ''(b,'']"
proof -
  have s: "ESC # ustr ''[1m'' \<noteq> [] \<and> hd (ESC # ustr ''[1m'') = ESC" by simp
  have p: "combine [ustr ''a'', ustr ''(''] = Inr [ustr ''a'', ustr ''('']"
    by (simp add: combine_eval)
  have q: "combine [ustr ''b'', ustr '',''] = Inr [ustr ''b,'']"
    by (simp add: combine_eval)
  have u: "combine [ustr ''a'', ustr ''('', ustr ''b'', ustr '',''] = Inr [ustr ''a'', ustr ''(b,'']"
    by (simp add: combine_eval)
  from combine_style_token s p q have
    "combine ([ustr ''a'', ustr ''(''] @ (ESC # ustr ''[1m'') # [ustr ''b'', ustr '','']) =
       Inr ([ustr ''a'', ustr ''(''] @ (ESC # ustr ''[1m'') # [ustr ''b,''])"
    by blast
  with p q u show ?thesis by blast
qed

section \<open>Line layout\<close>

lemma text_step_text:
  assumes "wd \<noteq> []" "hd wd \<noteq> ESC" "current_font (fst sc) = Inr fnt"
  shows "text_step rt justify (sc, L) wd =
     (case (if rw L + fst (textbbox rt wd fnt) > w (land (fst sc))
            then line_break rt justify sc
                   (L\<lparr>rh := max (snd (textbbox rt wd fnt)) (max (rh L) (lineheight (fst sc)))\<rparr>)
            else Inr (sc, L\<lparr>rh := max (snd (textbbox rt wd fnt))
                                  (max (rh L) (lineheight (fst sc)))\<rparr>)) of
        Inl e \<Rightarrow> Inl e
      | Inr (sc2, L2) \<Rightarrow>
          if rq L2 = [] \<and> is_blank (db rt) wd \<and> \<not> lwr L2 then Inr (sc2, L2)
          else Inr (sc2,
                    if \<not> is_blank (db rt) wd
                    then L2\<lparr>rw := rw L2 + fst (textbbox rt wd fnt),
                            rq := rq L2 @ [(wd, fst (textbbox rt wd fnt))],
                            lwr := False, ws := 0, wsw := 0\<rparr>
                    else L2\<lparr>rw := rw L2 + fst (textbbox rt wd fnt),
                            rq := rq L2 @ [(wd, fst (textbbox rt wd fnt))],
                            ws := ws L2 + 1, wsw := wsw L2 + fst (textbbox rt wd fnt)\<rparr>))"
  using assms by (simp add: text_step_def Let_def split: sum.splits prod.splits)














lemmas split_eval =
  split_def split_loop.simps findword_def findcsiend_def iseaw_def ESC_def ustr_def Let_def

lemmas layout_eval =
  text_step_def line_break_def draw_text_def draw_text_item_def pop_n_def
  current_font_def current_color_def ff_add_def find_relative_font_def ext_of_def tuple_of_def
  py_index_def is_blank_def text_locals0_def parse_params_def
  set_state_def set_state_step_def apply_opcode_def locals0_def SGRState0_def ESC_def ustr_def
  Let_def sample_runtime_def sample_state_def sample_db_def regular_only_family_def sample_int_def


lemma rc_text_run:
  assumes "split (db rt) txt = Inr toks" "combine toks = Inr sp"
    and "text_loop rt justify (sc, text_locals0) sp = Inr (sc1, L)"
    and "rq L = q" "rh L = k"
    and "draw_text rt sc1 q 0 0 = Inr (st2, cv2)"
  shows "rc_text rt sc txt justify =
     Inr (st2\<lparr>curpos := (0, snd (curpos st2) + of_int (max k (lineheight st2))
                               + of_int (spacing st2))\<rparr>, cv2)"
  using assms by (simp add: rc_text_def Let_def)


subsection \<open>Justification of a flushed line\<close>

lemma draw_text_item_effect:
  assumes "draw_text_item rt bc n (st, cv) item = Inr (st1, cv1)"
  shows "land st1 = land st \<and> snd (curpos st1) = snd (curpos st) \<and>
     (if is_style item then fst (curpos st1) = fst (curpos st) \<and> cv1 = cv
      else fst (curpos st1) = fst (curpos st) + of_int (snd item) + of_int bc / of_int n
         \<and> (\<exists>p. cv1 = cv @ [p] \<and> paint_x p = fst (curpos st) + of_int (x (land st))))"
  using assms
  by (auto simp: draw_text_item_def is_style_def Let_def split: if_splits sum.splits)

lemma draw_text_loop_effect:
  assumes "draw_text_loop rt bc n (st, cv) q = Inr (st', cv')"
  shows "land st' = land st \<and>
     (\<exists>ps. cv' = cv @ ps \<and>
        map paint_x ps =
          positions (fst (curpos st) + of_int (x (land st))) (of_int bc / of_int n) (text_widths q))"
  using assms
proof (induction q arbitrary: st cv)
  case Nil
  then show ?case by (simp add: text_widths_def)
next
  case (Cons item q)
  from Cons.prems obtain st1 cv1
    where item: "draw_text_item rt bc n (st, cv) item = Inr (st1, cv1)"
      and rest: "draw_text_loop rt bc n (st1, cv1) q = Inr (st', cv')"
    by (auto split: sum.splits)
  note eff = draw_text_item_effect [OF item]
  from Cons.IH [OF rest] obtain ps where ps: "land st' = land st1" "cv' = cv1 @ ps"
    "map paint_x ps =
       positions (fst (curpos st1) + of_int (x (land st1))) (of_int bc / of_int n) (text_widths q)"
    by auto
  show ?case
  proof (cases "is_style item")
    case True
    with eff ps show ?thesis by (simp add: text_widths_def)
  next
    case False
    with eff obtain p where p: "cv1 = cv @ [p]" "paint_x p = fst (curpos st) + of_int (x (land st))"
      and cur: "fst (curpos st1) = fst (curpos st) + of_int (snd item) + of_int bc / of_int n"
      and "land st1 = land st"
      by auto
    with ps False have "cv' = cv @ (p # ps)"
      "map paint_x (p # ps) =
          positions (fst (curpos st) + of_int (x (land st))) (of_int bc / of_int n)
            (text_widths (item # q))"
      by (simp_all add: text_widths_def algebra_simps)
    with ps \<open>land st1 = land st\<close> show ?thesis by metis
  qed
qed

lemma positions_length: "length (positions c d ks) = length ks"
  by (induction ks arbitrary: c) simp_all

lemma positions_hd: "ks \<noteq> [] \<Longrightarrow> hd (positions c d ks) = c"
  by (cases ks) simp_all

lemma positions_last:
  "ks \<noteq> [] \<Longrightarrow>
   last (positions c d ks) + of_int (last ks) =
     c + of_int (sum_list ks) + of_nat (length ks - 1) * d"
proof (induction ks arbitrary: c)
  case Nil
  then show ?case by simp
next
  case (Cons k ks)
  show ?case
  proof (cases "ks = []")
    case True
    then show ?thesis by simp
  next
    case False
    then have "positions (c + of_int k + d) d ks \<noteq> []"
      using positions_length [of "c + of_int k + d" d ks] by auto
    with Cons.IH [OF False, of "c + of_int k + d"] False show ?thesis
      by (cases ks) (simp_all add: algebra_simps)
  qed
qed

lemma length_split_style:
  "length q = length (text_widths q) + length (filter is_style q)"
  by (induction q) (simp_all add: text_widths_def)

lemma draw_text_span:
  assumes run: "draw_text rt (st, cv) q bc nstyle = Inr (st', cv')"
    and nstyle: "nstyle = int (length (filter is_style q))"
    and two: "2 \<le> length (text_widths q)"
  shows "\<exists>ps. cv' = cv @ ps \<and> length ps = length (text_widths q)
           \<and> paint_x (last ps) + of_int (last (text_widths q)) - paint_x (hd ps)
               = of_int (sum_list (text_widths q)) + of_int bc"
proof -
  define m where "m = length (text_widths q)"
  have n: "max 1 (int (length q) - 1 - nstyle) = int m - 1"
    using two length_split_style [of q] nstyle by (simp add: m_def)
  from run have "draw_text_loop rt bc (int m - 1) (st, cv) q = Inr (st', cv')"
    by (simp add: draw_text_def n)
  from draw_text_loop_effect [OF this] obtain ps where ps: "cv' = cv @ ps"
    "map paint_x ps =
       positions (fst (curpos st) + of_int (x (land st))) (of_int bc / of_int (int m - 1))
         (text_widths q)"
    by auto
  let ?c = "fst (curpos st) + of_int (x (land st))"
  let ?d = "(of_int bc :: rat) / of_int (int m - 1)"
  have ne: "text_widths q \<noteq> []" using two by auto
  have len: "length ps = m"
    using arg_cong [OF ps(2), of length] by (simp add: positions_length m_def)
  then have psne: "ps \<noteq> []" using two m_def by auto
  have "paint_x (last ps) = last (map paint_x ps)" using psne by (simp add: last_map)
  also have "\<dots> = last (positions ?c ?d (text_widths q))" by (simp add: ps(2))
  finally have l: "paint_x (last ps) + of_int (last (text_widths q)) =
      ?c + of_int (sum_list (text_widths q)) + of_nat (m - 1) * ?d"
    using positions_last [OF ne, of ?c ?d] by (simp add: m_def)
  have "paint_x (hd ps) = hd (map paint_x ps)" using psne by (simp add: hd_map)
  also have "\<dots> = ?c" using positions_hd [OF ne, of ?c ?d] by (simp add: ps(2))
  finally have h: "paint_x (hd ps) = ?c" .
  have "2 \<le> m" using two by (simp add: m_def)
  then have "(of_nat (m - 1) :: rat) * ?d = of_int bc"
    by (simp add: of_nat_diff)
  with l h ps(1) len show ?thesis by (simp add: m_def)
qed

lemma text_widths_append: "text_widths (q1 @ q2) = text_widths q1 @ text_widths q2"
  by (simp add: text_widths_def)

lemma line_break_locals:
  "line_break rt justify sc L = Inr (sc2, L2) \<Longrightarrow> rq L2 = [] \<and> rw L2 = 0 \<and> sty L2 = 0"
  by (auto simp: line_break_def Let_def split: sum.splits)

lemma layout_inv_step:
  assumes "layout_inv L" "text_step rt justify (sc, L) wd = Inr (sc', L')"
  shows "layout_inv L'"
proof (cases "wd = [] \<or> hd wd = ESC")
  case True
  with assms show ?thesis
    by (auto simp: text_step_def layout_inv_def text_widths_def is_style_def Let_def
        split: if_splits)
next
  case False
  with assms(2) obtain fnt where fnt: "current_font (fst sc) = Inr fnt"
    by (auto simp: text_step_def Let_def split: sum.splits)
  define L1 where
    "L1 = L\<lparr>rh := max (snd (textbbox rt wd fnt)) (max (rh L) (lineheight (fst sc)))\<rparr>"
  have inv1: "layout_inv L1" "rw L1 = rw L" using assms(1) by (simp_all add: L1_def layout_inv_def)
  from False have ns: "\<not> is_style (wd, k)" for k by (simp add: is_style_def)
  from False have wd: "wd \<noteq> []" "hd wd \<noteq> ESC" by simp_all
  note unfolded = text_step_text [OF wd fnt, of rt justify L, folded L1_def]
  obtain sc2 L2 where mid: "layout_inv L2"
    and res: "text_step rt justify (sc, L) wd =
      (if rq L2 = [] \<and> is_blank (db rt) wd \<and> \<not> lwr L2 then Inr (sc2, L2)
          else Inr (sc2,
                    if \<not> is_blank (db rt) wd
                    then L2\<lparr>rw := rw L2 + fst (textbbox rt wd fnt),
                            rq := rq L2 @ [(wd, fst (textbbox rt wd fnt))],
                            lwr := False, ws := 0, wsw := 0\<rparr>
                    else L2\<lparr>rw := rw L2 + fst (textbbox rt wd fnt),
                            rq := rq L2 @ [(wd, fst (textbbox rt wd fnt))],
                            ws := ws L2 + 1, wsw := wsw L2 + fst (textbbox rt wd fnt)\<rparr>))"
  proof (cases "rw L + fst (textbbox rt wd fnt) > w (land (fst sc))")
    case True
    with assms(2) unfolded obtain sc2 L2 where br: "line_break rt justify sc L1 = Inr (sc2, L2)"
      by (auto split: sum.splits)
    from line_break_locals [OF br] have "layout_inv L2"
      by (simp add: layout_inv_def text_widths_def)
    with that [of L2 sc2] unfolded True br show ?thesis by simp
  next
    case False
    with that [of L1 sc] unfolded inv1 show ?thesis by simp
  qed
  from assms(2) res mid ns show ?thesis
    by (auto simp: layout_inv_def text_widths_def split: if_splits)
qed

lemma layout_inv_loop:
  "layout_inv (snd scl) \<Longrightarrow> text_loop rt justify scl sp = Inr scl' \<Longrightarrow> layout_inv (snd scl')"
proof (induction sp arbitrary: scl)
  case Nil
  then show ?case by simp
next
  case (Cons wd sp)
  from Cons.prems(2) obtain scl1 where st: "text_step rt justify scl wd = Inr scl1"
    and rest: "text_loop rt justify scl1 sp = Inr scl'"
    by (auto split: sum.splits)
  from layout_inv_step [of "snd scl" rt justify "fst scl" wd "fst scl1" "snd scl1"] Cons.prems(1) st
  have "layout_inv (snd scl1)" by simp
  from Cons.IH [OF this rest] show ?case .
qed

lemma layout_inv_start: "layout_inv text_locals0"
  by (simp add: layout_inv_def text_locals0_def text_widths_def)

text \<open>
  The justified flush is exact whenever the entries that stripping pops are text
  entries whose widths add up to \<open>wsw\<close>: the line then spans the region width from
  the left edge of its first token to the right edge of its last one.
\<close>

theorem line_break_justified:
  assumes br: "line_break rt True (st, cv) L = Inr ((st', cv'), L')"
    and inv: "layout_inv L"
    and q: "rq L = body @ tail" "ws L = int (length tail)"
    and tail: "\<forall>item \<in> set tail. \<not> is_style item" "wsw L = sum_list (map snd tail)"
    and two: "2 \<le> length (text_widths body)"
  shows "\<exists>ps. cv' = cv @ ps \<and> length ps = length (text_widths body)
           \<and> paint_x (last ps) + of_int (last (text_widths body)) - paint_x (hd ps)
               = of_int (w (land st))"
proof -
  have pop: "pop_n (rq L) (ws L) = Inr body" using q by (simp add: pop_n_def)
  have ft: "filter is_style tail = []" "text_widths tail = map snd tail"
    using tail(1) by (simp_all add: text_widths_def filter_empty_conv filter_id_conv)
  from inv q ft tail(2) have rwL: "rw L = sum_list (text_widths body) + wsw L"
    and styL: "sty L = int (length (filter is_style body))"
    by (simp_all add: layout_inv_def text_widths_append)
  from br pop obtain sc2 where
    dt: "draw_text rt (st, cv) body (w (land st) - rw L + wsw L) (sty L) = Inr sc2"
    and out: "cv' = snd sc2"
    by (auto simp: line_break_def Let_def split: sum.splits)
  from draw_text_span [of rt st cv body "w (land st) - rw L + wsw L" "sty L" "fst sc2" "snd sc2"]
    dt styL two
  obtain ps where "snd sc2 = cv @ ps" "length ps = length (text_widths body)"
    "paint_x (last ps) + of_int (last (text_widths body)) - paint_x (hd ps)
       = of_int (sum_list (text_widths body)) + of_int (w (land st) - rw L + wsw L)"
    by auto
  with out rwL show ?thesis by auto
qed

text \<open>
  The flush of the plain line \<open>aa bb\<close> before \<open>cccc\<close> in the sample region: the
  trailing space is stripped and the remainder 15 is shared by the two gaps.
\<close>

lemma line_break_justified_example:
  "line_break sample_runtime True (sample_state, [])
     \<lparr>rq = [(ustr ''aa'', 20), (ustr '' '', 5), (ustr ''bb'', 20), (ustr '' '', 5)],
      rw = 50, rh = 10, ws = 1, wsw = 5, lwr = False, sty = 0\<rparr> =
   Inr ((sample_state\<lparr>curpos := (0, 14)\<rparr>,
         [Paint (0, 0) (ustr ''aa'') (RGBA 0 0 0 255) ''R'',
          Paint (55 / 2, 0) (ustr '' '') (RGBA 0 0 0 255) ''R'',
          Paint (40, 0) (ustr ''bb'') (RGBA 0 0 0 255) ''R'']),
        \<lparr>rq = [], rw = 0, rh = 0, ws = 1, wsw = 5, lwr = False, sty = 0\<rparr>)"
  by (simp add: layout_eval)

text \<open>
  On that plain line the theorem gives the span 60, the width of the sample region:
  \<open>bb\<close> is painted at 40 and is 20 wide.
\<close>

lemma line_break_justified_instance:
  "\<exists>ps. [Paint (0, 0) (ustr ''aa'') (RGBA 0 0 0 255) ''R'',
          Paint (55 / 2, 0) (ustr '' '') (RGBA 0 0 0 255) ''R'',
          Paint (40, 0) (ustr ''bb'') (RGBA 0 0 0 255) ''R''] = ps
        \<and> paint_x (last ps) + 20 - paint_x (hd ps) = 60"
proof -
  let ?L = "\<lparr>rq = [(ustr ''aa'', 20), (ustr '' '', 5), (ustr ''bb'', 20), (ustr '' '', 5)],
      rw = 50, rh = 10, ws = 1, wsw = 5, lwr = False, sty = 0\<rparr>"
  have inv: "layout_inv ?L"
    by (simp add: layout_inv_def text_widths_def is_style_def ustr_def ESC_def)
  have q: "rq ?L = [(ustr ''aa'', 20), (ustr '' '', 5), (ustr ''bb'', 20)] @ [(ustr '' '', 5)]"
    "ws ?L = int (length [(ustr '' '', 5 :: int)])"
    "\<forall>item \<in> set [(ustr '' '', 5 :: int)]. \<not> is_style item"
    "wsw ?L = sum_list (map snd [(ustr '' '', 5 :: int)])"
    "2 \<le> length (text_widths [(ustr ''aa'', 20), (ustr '' '', 5), (ustr ''bb'', 20)])"
    by (simp_all add: text_widths_def is_style_def ustr_def ESC_def)
  from line_break_justified [OF line_break_justified_example inv q]
  show ?thesis
    by (simp add: text_widths_def is_style_def ustr_def ESC_def sample_state_def)
qed

subsection \<open>A style token behind the trailing whitespace\<close>

text \<open>
  Claim C1 at a failing input. The hard line \<open>aa bb ESC[3mcccc\<close> is laid out
  justified in a region of width 60; \<open>aa\<close> and \<open>bb\<close> measure 20, a space 5 and
  \<open>cccc\<close> 40, so \<open>cccc\<close> forces a break with one trailing space and one style token
  behind it in the queue. Stripping pops the last queue entry, which is the style token
  and not the space. The flushed line paints \<open>aa\<close> at 0, a space at 27.5, \<open>bb\<close> at 40
  and the trailing space at 67.5: the widths of its text tokens are 50 and the
  remainder is 15, a span of 65 where the region is 60 wide, and the last painted token
  ends at 72.5. The style token is never applied: the state after the call is not
  italic.
\<close>

theorem rc_text_style_after_whitespace:
  "rc_text sample_runtime (sample_state, []) (ustr ''aa bb '' @ ESC # ustr ''[3mcccc'') True =
     Inr (sample_state\<lparr>curpos := (0, 28)\<rparr>,
          [Paint (0, 0) (ustr ''aa'') (RGBA 0 0 0 255) ''R'',
           Paint (55 / 2, 0) (ustr '' '') (RGBA 0 0 0 255) ''R'',
           Paint (40, 0) (ustr ''bb'') (RGBA 0 0 0 255) ''R'',
           Paint (135 / 2, 0) (ustr '' '') (RGBA 0 0 0 255) ''R'',
           Paint (0, 14) (ustr ''cccc'') (RGBA 0 0 0 255) ''R''])"
proof -
  have s: "split (db sample_runtime) (ustr ''aa bb '' @ ESC # ustr ''[3mcccc'') =
     Inr [ustr ''aa'', ustr '' '', ustr ''bb'', ustr '' '', ESC # ustr ''[3m'', ustr ''cccc'']"
    by (simp add: split_eval sample_db_def sample_runtime_def)
  have c: "combine [ustr ''aa'', ustr '' '', ustr ''bb'', ustr '' '', ESC # ustr ''[3m'', ustr ''cccc''] =
     Inr [ustr ''aa'', ustr '' '', ustr ''bb'', ustr '' '', ESC # ustr ''[3m'', ustr ''cccc'']"
    by (simp add: combine_eval)
  have l: "text_loop sample_runtime True ((sample_state, []), text_locals0)
       [ustr ''aa'', ustr '' '', ustr ''bb'', ustr '' '', ESC # ustr ''[3m'', ustr ''cccc''] =
     Inr ((sample_state\<lparr>curpos := (0, 14)\<rparr>,
          [Paint (0, 0) (ustr ''aa'') (RGBA 0 0 0 255) ''R'',
           Paint (55 / 2, 0) (ustr '' '') (RGBA 0 0 0 255) ''R'',
           Paint (40, 0) (ustr ''bb'') (RGBA 0 0 0 255) ''R'',
           Paint (135 / 2, 0) (ustr '' '') (RGBA 0 0 0 255) ''R'']),
          \<lparr>rq = [(ustr ''cccc'', 40)], rw = 40, rh = 0, ws = 0, wsw = 0, lwr = False, sty = 0\<rparr>)"
    by (simp add: layout_eval)
  have d: "draw_text sample_runtime (sample_state\<lparr>curpos := (0, 14)\<rparr>,
          [Paint (0, 0) (ustr ''aa'') (RGBA 0 0 0 255) ''R'',
           Paint (55 / 2, 0) (ustr '' '') (RGBA 0 0 0 255) ''R'',
           Paint (40, 0) (ustr ''bb'') (RGBA 0 0 0 255) ''R'',
           Paint (135 / 2, 0) (ustr '' '') (RGBA 0 0 0 255) ''R'']) [(ustr ''cccc'', 40)] 0 0 =
     Inr (sample_state\<lparr>curpos := (40, 14)\<rparr>,
          [Paint (0, 0) (ustr ''aa'') (RGBA 0 0 0 255) ''R'',
           Paint (55 / 2, 0) (ustr '' '') (RGBA 0 0 0 255) ''R'',
           Paint (40, 0) (ustr ''bb'') (RGBA 0 0 0 255) ''R'',
           Paint (135 / 2, 0) (ustr '' '') (RGBA 0 0 0 255) ''R'',
           Paint (0, 14) (ustr ''cccc'') (RGBA 0 0 0 255) ''R''])"
    by (simp add: layout_eval)
  from rc_text_run [OF s c l _ _ d, of 0] show ?thesis
    by (simp add: sample_state_def)
qed

end
